theory Spec2Isabelle
  imports Main
begin

section \<open>BigInt arithmetic of the pricing engine\<close>

text \<open>
  The engine (class \<open>LMSRPricer\<close>) computes on JavaScript \<open>bigint\<close> values: unbounded
  integers, modelled as \<open>int\<close>. The operator \<open>/\<close> on bigints truncates towards zero and
  throws a \<open>RangeError\<close> when the divisor is zero; \<open>ln\<close> and \<open>log2\<close> throw an \<open>Error\<close> on
  a non-positive argument. Every throw is a value \<open>Inl e\<close> of the result type.
\<close>

datatype error = DomainError | RangeError

definition ebind :: "error + 'a \<Rightarrow> ('a \<Rightarrow> error + 'b) \<Rightarrow> error + 'b" where
  "ebind m f = (case m of Inl e \<Rightarrow> Inl e | Inr v \<Rightarrow> f v)"

text \<open>Truncating division, used where the divisor is a non-zero constant.\<close>

definition tdiv :: "int \<Rightarrow> int \<Rightarrow> int" where
  "tdiv a b = sgn a * sgn b * (\<bar>a\<bar> div \<bar>b\<bar>)"

text \<open>Division by a divisor that comes from the caller: zero throws.\<close>

definition bigdiv :: "int \<Rightarrow> int \<Rightarrow> error + int" where
  "bigdiv a b = (if b = 0 then Inl RangeError else Inr (tdiv a b))"

text \<open>
  The constants. \<open>BigInt(10**18)\<close> is exact. \<open>BigInt(693147180559945309)\<close> converts a
  Number literal: the literal is rounded to the nearest double first (doubles are 128
  apart at this magnitude), which is 693147180559945344. \<open>BigInt(2**256 - 1)\<close> likewise
  subtracts in double arithmetic, where \<open>2**256 - 1\<close> is \<open>2**256\<close>.
\<close>

definition SCALE :: int where
  "SCALE = 10 ^ 18"

definition LN2 :: int where
  "LN2 = 693147180559945344"

definition EXP_MAX :: int where
  "EXP_MAX = 2 ^ 256"

section \<open>Numeric approximations\<close>

text \<open>\<open>expApprox\<close>: five Taylor terms, each product divided back by the scale.\<close>

definition expApprox :: "int \<Rightarrow> int" where
  "expApprox x =
     (if x = 0 then SCALE
      else if 42 * SCALE \<le> x then EXP_MAX
      else
        let term1 = x;
            result1 = SCALE + term1;
            term2 = tdiv (term1 * x) (2 * SCALE);
            result2 = result1 + term2;
            term3 = tdiv (term2 * x) (3 * SCALE);
            result3 = result2 + term3;
            term4 = tdiv (term3 * x) (4 * SCALE);
            result4 = result3 + term4;
            term5 = tdiv (term4 * x) (5 * SCALE);
            result5 = result4 + term5
        in result5)"

text \<open>
  The halving loop of \<open>log2\<close>, on the pair \<open>(y, result)\<close>; it returns the pair at
  loop exit.
\<close>

function log2_loop :: "int \<Rightarrow> int \<Rightarrow> int \<times> int" where
  "log2_loop y result =
     (if 2 * SCALE \<le> y then log2_loop (tdiv y 2) (result + SCALE) else (y, result))"
  by pat_completeness auto
termination
  by (relation "measure (\<lambda>(y, r). nat y)") (auto simp: SCALE_def tdiv_def)

declare log2_loop.simps [simp del]

definition log2 :: "int \<Rightarrow> error + int" where
  "log2 x =
     (if x \<le> 0 then Inl DomainError
      else case log2_loop x 0 of (y, result) \<Rightarrow>
        if 15 * 10 ^ 17 \<le> y then Inr (result + 5 * 10 ^ 17)
        else if 125 * 10 ^ 16 \<le> y then Inr (result + 32 * 10 ^ 16)
        else Inr result)"

definition ln :: "int \<Rightarrow> error + int" where
  "ln x =
     (if x \<le> 0 then Inl DomainError
      else if x = SCALE then Inr 0
      else ebind (log2 x) (\<lambda>log2x. Inr (tdiv (log2x * LN2) SCALE)))"

text \<open>
  The Babylonian loop of \<open>sqrt\<close> on \<open>(z, y)\<close>. Nothing in the loop bounds the number
  of rounds for an arbitrary bigint, so not returning is the value \<open>None\<close>.
\<close>

partial_function (option) sqrt_loop :: "int \<Rightarrow> int \<Rightarrow> int \<Rightarrow> (error + int) option" where
  "sqrt_loop x z y =
     (if z < y then
        (if z = 0 then Some (Inl RangeError)
         else sqrt_loop x (tdiv (tdiv x z + z) 2) z)
      else Some (Inr y))"

definition sqrt :: "int \<Rightarrow> (error + int) option" where
  "sqrt x = (if x = 0 then Some (Inr 0) else sqrt_loop x (tdiv (x + 1) 2) x)"

section \<open>LMSR cost, price and liquidity\<close>

record LMSRParams =
  b0 :: int
  alpha :: int
  beta :: int
  V0 :: int

definition DEFAULT_LMSR_PARAMS :: LMSRParams where
  "DEFAULT_LMSR_PARAMS =
     \<lparr> b0 = 100 * 10 ^ 18, alpha = 5 * 10 ^ 16, beta = 2 * 10 ^ 16, V0 = 1000000 * 10 ^ 18 \<rparr>"

definition calculateB :: "LMSRParams \<Rightarrow> int \<Rightarrow> int \<Rightarrow> (error + int) option" where
  "calculateB params totalVolume txCount =
     (if totalVolume = 0 \<and> txCount = 0 then Some (Inr (b0 params))
      else case bigdiv (totalVolume * SCALE) (V0 params) of
        Inl e \<Rightarrow> Some (Inl e)
      | Inr volumeRatio \<Rightarrow>
          (case sqrt volumeRatio of
             None \<Rightarrow> None
           | Some (Inl e) \<Rightarrow> Some (Inl e)
           | Some (Inr sqrtVolume) \<Rightarrow>
               Some (ebind (ln (SCALE + txCount * SCALE)) (\<lambda>lnTxCount.
                 let multiplier = SCALE
                       + tdiv (alpha params * sqrtVolume) SCALE
                       + tdiv (beta params * lnTxCount) SCALE
                 in Inr (tdiv (b0 params * multiplier) SCALE)))))"

definition getPrice :: "int \<Rightarrow> int \<Rightarrow> int \<Rightarrow> error + (int \<times> int)" where
  "getPrice qYes qNo b =
     (if qYes = 0 \<and> qNo = 0 then Inr (5 * 10 ^ 17, 5 * 10 ^ 17)
      else
        ebind (bigdiv (qYes * SCALE) b) (\<lambda>xYes.
        ebind (bigdiv (qNo * SCALE) b) (\<lambda>xNo.
          let expYes = expApprox xYes;
              expNo = expApprox xNo;
              sumExp = expYes + expNo
          in if sumExp = 0 then Inr (5 * 10 ^ 17, 5 * 10 ^ 17)
             else Inr (tdiv (expYes * SCALE) sumExp, tdiv (expNo * SCALE) sumExp))))"

definition getCost :: "int \<Rightarrow> int \<Rightarrow> int \<Rightarrow> error + int" where
  "getCost qYes qNo b =
     (if qYes = 0 \<and> qNo = 0 then
        ebind (ln (2 * SCALE)) (\<lambda>l. Inr (tdiv (b * l) SCALE))
      else
        ebind (bigdiv (qYes * SCALE) b) (\<lambda>xYes.
        ebind (bigdiv (qNo * SCALE) b) (\<lambda>xNo.
          let expYes = expApprox xYes;
              expNo = expApprox xNo;
              sum = expYes + expNo
          in ebind (ln sum) (\<lambda>l. Inr (tdiv (b * l) SCALE)))))"

section \<open>Share solver, trade preview, validator\<close>

text \<open>
  The binary search of \<open>calculateShares\<close> on \<open>(low, high, iterations)\<close>; a throw of
  \<open>getCost\<close> leaves the loop.
\<close>

function calculateShares_loop ::
  "bool \<Rightarrow> int \<Rightarrow> int \<Rightarrow> int \<Rightarrow> int \<Rightarrow> int \<Rightarrow> int \<Rightarrow> nat \<Rightarrow> error + int" where
  "calculateShares_loop isYes currentQYes currentQNo b targetCost low high iterations =
     (if low < high \<and> iterations < 50 then
        (case getCost (if isYes then currentQYes + tdiv (low + high) 2 else currentQYes)
                      (if isYes then currentQNo else currentQNo + tdiv (low + high) 2) b of
           Inl e \<Rightarrow> Inl e
         | Inr newCost \<Rightarrow>
             if newCost < targetCost
             then calculateShares_loop isYes currentQYes currentQNo b targetCost
                    (tdiv (low + high) 2 + 1) high (iterations + 1)
             else calculateShares_loop isYes currentQYes currentQNo b targetCost
                    low (tdiv (low + high) 2) (iterations + 1))
      else Inr low)"
  by pat_completeness auto
termination
  by (relation "measure (\<lambda>(isYes, qy, qn, b, t, low, high, iterations). 50 - iterations)") auto

declare calculateShares_loop.simps [simp del]

definition calculateShares :: "int \<Rightarrow> bool \<Rightarrow> int \<Rightarrow> int \<Rightarrow> int \<Rightarrow> error + int" where
  "calculateShares payAmount isYes currentQYes currentQNo b =
     ebind (getCost currentQYes currentQNo b) (\<lambda>currentCost.
       calculateShares_loop isYes currentQYes currentQNo b (currentCost + payAmount)
         0 (payAmount * 10) 0)"

record TradePreview =
  expectedShares :: int
  newPrice :: int
  priceImpact :: int
  avgPrice :: int
  fee :: int
  netAmount :: int

definition previewTrade ::
  "int \<Rightarrow> bool \<Rightarrow> int \<Rightarrow> int \<Rightarrow> int \<Rightarrow> int \<Rightarrow> error + TradePreview" where
  "previewTrade payAmount isYes currentQYes currentQNo currentB feeRate =
     (let fee' = tdiv (payAmount * feeRate) 10000;
          netAmount' = payAmount - fee'
      in ebind (calculateShares netAmount' isYes currentQYes currentQNo currentB) (\<lambda>shares.
         let newQYes = (if isYes then currentQYes + shares else currentQYes);
             newQNo = (if isYes then currentQNo else currentQNo + shares)
         in ebind (getPrice newQYes newQNo currentB) (\<lambda>(newPriceYes, newPriceNo).
            ebind (getPrice currentQYes currentQNo currentB) (\<lambda>(currentPriceYes, currentPriceNo).
              let newPrice' = (if isYes then newPriceYes else newPriceNo);
                  currentPrice = (if isYes then currentPriceYes else currentPriceNo);
                  priceImpact' = (if 0 < currentPrice
                                  then tdiv ((newPrice' - currentPrice) * SCALE) currentPrice
                                  else 0);
                  avgPrice' = (if 0 < shares then tdiv (netAmount' * SCALE) shares else 0)
              in Inr \<lparr> expectedShares = shares, newPrice = newPrice',
                       priceImpact = priceImpact', avgPrice = avgPrice',
                       fee = fee', netAmount = netAmount' \<rparr>))))"

text \<open>
  \<open>validateState\<close> compares \<open>Math.abs(Number(priceSum - 10^18))\<close> with \<open>Number(10^15)\<close>.
  \<open>Number\<close> is exact on every bigint of magnitude below \<open>2^53\<close> and maps a larger one to a
  double of magnitude at least \<open>2^53 > 10^15\<close>, so the comparison is the comparison of the
  integers.
\<close>

definition validateState :: "int \<Rightarrow> int \<Rightarrow> int \<Rightarrow> error + bool" where
  "validateState qYes qNo b =
     (if qYes < 0 \<or> qNo < 0 \<or> b \<le> 0 then Inr False
      else ebind (getPrice qYes qNo b) (\<lambda>(pYes, pNo).
        let priceSum = pYes + pNo;
            tolerance = 10 ^ 15
        in Inr (\<bar>priceSum - 10 ^ 18\<bar> < tolerance)))"

section \<open>Values computed on valid arguments\<close>

text \<open>
  Closed forms of what \<open>log2\<close> and \<open>ln\<close> return on a positive argument; the lemmas
  below relate them to the functions above.
\<close>

definition log2_frac :: "int \<Rightarrow> int" where
  "log2_frac y = (if 15 * 10 ^ 17 \<le> y then 5 * 10 ^ 17
                  else if 125 * 10 ^ 16 \<le> y then 32 * 10 ^ 16 else 0)"

definition log2_value :: "int \<Rightarrow> int \<Rightarrow> int" where
  "log2_value y r = (case log2_loop y r of (y', r') \<Rightarrow> r' + log2_frac y')"

definition ln_value :: "int \<Rightarrow> int" where
  "ln_value x = (log2_value x 0 * LN2) div SCALE"

text \<open>The five-term polynomial of \<open>expApprox\<close> and the sum of the two exponentials
  that \<open>getPrice\<close> and \<open>getCost\<close> form on valid arguments.\<close>

definition taylor5 :: "int \<Rightarrow> int" where
  "taylor5 x =
     SCALE + x + tdiv (x * x) (2 * SCALE)
       + tdiv (tdiv (x * x) (2 * SCALE) * x) (3 * SCALE)
       + tdiv (tdiv (tdiv (x * x) (2 * SCALE) * x) (3 * SCALE) * x) (4 * SCALE)
       + tdiv (tdiv (tdiv (tdiv (x * x) (2 * SCALE) * x) (3 * SCALE) * x) (4 * SCALE) * x) (5 * SCALE)"

definition exp_sum :: "int \<Rightarrow> int \<Rightarrow> int \<Rightarrow> int" where
  "exp_sum qYes qNo b = expApprox (qYes * SCALE div b) + expApprox (qNo * SCALE div b)"

text \<open>
  The cost after buying \<open>s\<close> shares of one outcome, the value of \<open>sqrt\<close>, and the
  liquidity parameter, as closed forms on valid arguments.
\<close>

definition shares_cost :: "bool \<Rightarrow> int \<Rightarrow> int \<Rightarrow> int \<Rightarrow> int \<Rightarrow> int" where
  "shares_cost isYes qYes qNo b s =
     b * ln_value (exp_sum (if isYes then qYes + s else qYes)
                           (if isYes then qNo else qNo + s) b) div SCALE"

definition sqrt_value :: "int \<Rightarrow> int" where
  "sqrt_value x = (case sqrt x of Some (Inr s) \<Rightarrow> s | _ \<Rightarrow> 0)"

definition liquidity_value :: "LMSRParams \<Rightarrow> int \<Rightarrow> int \<Rightarrow> int" where
  "liquidity_value params totalVolume txCount =
     b0 params * (SCALE
        + alpha params * sqrt_value (totalVolume * SCALE div V0 params) div SCALE
        + beta params * ln_value (SCALE + txCount * SCALE) div SCALE) div SCALE"

section \<open>Division and logarithm lemmas\<close>

lemma tdiv_div: "0 \<le> a \<Longrightarrow> 0 < b \<Longrightarrow> tdiv a b = a div b"
  by (cases "a = 0") (simp_all add: tdiv_def)

lemma tdiv_nonneg: "0 \<le> a \<Longrightarrow> 0 < b \<Longrightarrow> 0 \<le> tdiv a b"
  by (simp add: tdiv_div pos_imp_zdiv_nonneg_iff)

lemma tdiv_mono: "0 \<le> a \<Longrightarrow> a \<le> a' \<Longrightarrow> 0 < b \<Longrightarrow> tdiv a b \<le> tdiv a' b"
  by (simp add: tdiv_div zdiv_mono1)

lemma log2_frac_bounds: "0 \<le> log2_frac y \<and> log2_frac y \<le> 5 * 10 ^ 17"
  by (simp add: log2_frac_def)

lemma log2_frac_mono: "y \<le> y' \<Longrightarrow> log2_frac y \<le> log2_frac y'"
  by (simp add: log2_frac_def)

lemma log2_value_stop: "y < 2 * SCALE \<Longrightarrow> log2_value y r = r + log2_frac y"
  by (simp add: log2_value_def log2_loop.simps [of y r])

lemma log2_value_step:
  "2 * SCALE \<le> y \<Longrightarrow> log2_value y r = log2_value (y div 2) (r + SCALE)"
proof -
  assume h: "2 * SCALE \<le> y"
  then have "0 \<le> y" by (simp add: SCALE_def)
  then have "tdiv y 2 = y div 2" by (simp add: tdiv_div)
  with h show ?thesis by (simp add: log2_value_def log2_loop.simps [of y r])
qed

lemma log2_value_lower: "r \<le> log2_value y r"
proof (induction y r rule: log2_loop.induct)
  case (1 y result)
  show ?case
  proof (cases "2 * SCALE \<le> y")
    case True
    then have "0 \<le> y" by (simp add: SCALE_def)
    then have t: "tdiv y 2 = y div 2" by (simp add: tdiv_div)
    from 1 True t have "result + SCALE \<le> log2_value (y div 2) (result + SCALE)" by simp
    moreover have "0 \<le> SCALE" by (simp add: SCALE_def)
    ultimately show ?thesis using True by (simp add: log2_value_step)
  next
    case False
    then show ?thesis using log2_frac_bounds [of y] by (simp add: log2_value_stop)
  qed
qed

lemma log2_value_mono_aux:
  "x \<le> x' \<Longrightarrow> r \<le> r' \<Longrightarrow> log2_value x r \<le> log2_value x' r'"
proof (induction x' r' arbitrary: x r rule: log2_loop.induct)
  case (1 y result)
  show ?case
  proof (cases "2 * SCALE \<le> y")
    case big: True
    then have "0 \<le> y" by (simp add: SCALE_def)
    then have t: "tdiv y 2 = y div 2" by (simp add: tdiv_div)
    show ?thesis
    proof (cases "2 * SCALE \<le> x")
      case True
      have "x div 2 \<le> y div 2" using "1.prems"(1) by (simp add: zdiv_mono1)
      then have "log2_value (x div 2) (r + SCALE) \<le> log2_value (y div 2) (result + SCALE)"
        using "1.IH" [OF big, of "x div 2" "r + SCALE"] t "1.prems"(2) by simp
      then show ?thesis using True big by (simp add: log2_value_step)
    next
      case False
      then have "log2_value x r = r + log2_frac x" by (simp add: log2_value_stop)
      also have "\<dots> \<le> r + SCALE" using log2_frac_bounds [of x] by (simp add: SCALE_def)
      also have "\<dots> \<le> result + SCALE" using "1.prems"(2) by simp
      also have "\<dots> \<le> log2_value (y div 2) (result + SCALE)" by (rule log2_value_lower)
      finally show ?thesis using big by (simp add: log2_value_step)
    qed
  next
    case False
    with "1.prems" have "x < 2 * SCALE" by simp
    then show ?thesis using False "1.prems" log2_frac_mono [of x y]
      by (simp add: log2_value_stop)
  qed
qed

lemma log2_value_mono: "x \<le> x' \<Longrightarrow> log2_value x 0 \<le> log2_value x' 0"
  by (rule log2_value_mono_aux) simp_all

lemma log2_eq: "0 < x \<Longrightarrow> log2 x = Inr (log2_value x 0)"
  by (simp add: log2_def log2_value_def log2_frac_def split: prod.splits)

lemma log2_value_SCALE: "log2_value SCALE 0 = 0"
  by (simp add: log2_value_stop log2_frac_def SCALE_def)

lemma log2_value_2SCALE: "log2_value (2 * SCALE) 0 = SCALE"
proof -
  have "log2_value (2 * SCALE) 0 = log2_value ((2 * SCALE) div 2) (0 + SCALE)"
    by (rule log2_value_step) simp
  also have "\<dots> = log2_value SCALE SCALE" by simp
  also have "\<dots> = SCALE + log2_frac SCALE"
    by (rule log2_value_stop) (simp add: SCALE_def)
  also have "\<dots> = SCALE" by (simp add: log2_frac_def SCALE_def)
  finally show ?thesis .
qed

lemma ln_eq: "0 < x \<Longrightarrow> ln x = Inr (ln_value x)"
proof -
  assume h: "0 < x"
  have "0 \<le> log2_value x 0" by (rule log2_value_lower)
  then have "tdiv (log2_value x 0 * LN2) SCALE = ln_value x"
    by (simp add: ln_value_def tdiv_div SCALE_def LN2_def)
  then show ?thesis using h
    by (auto simp add: ln_def ebind_def log2_eq ln_value_def log2_value_SCALE)
qed

lemma ln_value_mono: "x \<le> x' \<Longrightarrow> ln_value x \<le> ln_value x'"
  unfolding ln_value_def
  by (intro zdiv_mono1 mult_right_mono log2_value_mono) (simp_all add: LN2_def SCALE_def)

lemma ln_value_nonneg: "0 \<le> ln_value x"
  unfolding ln_value_def using log2_value_lower [of 0 x]
  by (simp add: pos_imp_zdiv_nonneg_iff LN2_def SCALE_def)

section \<open>The exponential, prices and cost on valid arguments\<close>

lemma expApprox_taylor5:
  "expApprox x = (if x = 0 then SCALE else if 42 * SCALE \<le> x then EXP_MAX else taylor5 x)"
  by (simp add: expApprox_def taylor5_def Let_def)

lemma tdiv_step_mono:
  assumes "0 \<le> t" "t \<le> t'" "0 \<le> x" "x \<le> x'" "0 < c"
  shows "0 \<le> tdiv (t * x) c \<and> tdiv (t * x) c \<le> tdiv (t' * x') c"
proof -
  have "0 \<le> t * x" using assms by simp
  moreover have "t * x \<le> t' * x'" using assms by (intro mult_mono) simp_all
  ultimately show ?thesis using assms(5) by (simp add: tdiv_nonneg tdiv_mono)
qed

lemma taylor5_mono:
  assumes "0 \<le> x" "x \<le> y"
  shows "taylor5 x \<le> taylor5 y"
proof -
  have c: "0 < 2 * SCALE" "0 < 3 * SCALE" "0 < 4 * SCALE" "0 < 5 * SCALE"
    by (simp_all add: SCALE_def)
  note s2 = tdiv_step_mono [OF assms(1) assms(2) assms(1) assms(2) c(1)]
  note s3 = tdiv_step_mono [OF conjunct1 [OF s2] conjunct2 [OF s2] assms(1) assms(2) c(2)]
  note s4 = tdiv_step_mono [OF conjunct1 [OF s3] conjunct2 [OF s3] assms(1) assms(2) c(3)]
  note s5 = tdiv_step_mono [OF conjunct1 [OF s4] conjunct2 [OF s4] assms(1) assms(2) c(4)]
  show ?thesis unfolding taylor5_def using assms(2) s2 s3 s4 s5 by linarith
qed

lemma taylor5_zero: "taylor5 0 = SCALE"
  by (simp add: taylor5_def tdiv_def)

lemma taylor5_42: "taylor5 (42 * SCALE) \<le> EXP_MAX"
  by (simp add: taylor5_def tdiv_def SCALE_def EXP_MAX_def)

lemma expApprox_mono:
  assumes "0 \<le> x" "x \<le> y"
  shows "expApprox x \<le> expApprox y"
proof -
  have a: "taylor5 x \<le> taylor5 y" using assms by (rule taylor5_mono)
  have b: "x \<le> 42 * SCALE \<Longrightarrow> taylor5 x \<le> EXP_MAX"
    using taylor5_mono [OF assms(1), of "42 * SCALE"] taylor5_42 by simp
  have c: "SCALE \<le> taylor5 y"
    using taylor5_mono [of 0 y] assms taylor5_zero by simp
  have d: "SCALE \<le> EXP_MAX" by (simp add: SCALE_def EXP_MAX_def)
  show ?thesis using a b c d assms by (auto simp add: expApprox_taylor5)
qed

lemma expApprox_zero: "expApprox 0 = SCALE"
  by (simp add: expApprox_def)

lemma expApprox_ge: "0 \<le> x \<Longrightarrow> SCALE \<le> expApprox x"
  using expApprox_mono [of 0 x] by (simp add: expApprox_zero)

lemma bigdiv_eq: "0 \<le> a \<Longrightarrow> 0 < b \<Longrightarrow> bigdiv a b = Inr (a div b)"
  by (simp add: bigdiv_def tdiv_div)

lemma scaled_quot_nonneg: "0 \<le> q \<Longrightarrow> 0 < b \<Longrightarrow> 0 \<le> q * SCALE div b"
  by (simp add: pos_imp_zdiv_nonneg_iff SCALE_def)

lemma scaled_quot_mono: "q \<le> q' \<Longrightarrow> 0 < b \<Longrightarrow> q * SCALE div b \<le> q' * SCALE div b"
  by (intro zdiv_mono1 mult_right_mono) (simp_all add: SCALE_def)

lemma exp_sum_ge: "0 \<le> qYes \<Longrightarrow> 0 \<le> qNo \<Longrightarrow> 0 < b \<Longrightarrow> 2 * SCALE \<le> exp_sum qYes qNo b"
  using expApprox_ge [OF scaled_quot_nonneg, of qYes b] expApprox_ge [OF scaled_quot_nonneg, of qNo b]
  by (simp add: exp_sum_def)

lemma getPrice_eq:
  assumes "0 \<le> qYes" "0 \<le> qNo" "0 < b"
  shows "getPrice qYes qNo b =
           Inr (expApprox (qYes * SCALE div b) * SCALE div exp_sum qYes qNo b,
                expApprox (qNo * SCALE div b) * SCALE div exp_sum qYes qNo b)"
proof -
  have s: "2 * SCALE \<le> exp_sum qYes qNo b" using assms by (rule exp_sum_ge)
  then have pos: "0 < exp_sum qYes qNo b" by (simp add: SCALE_def)
  have ey: "0 \<le> expApprox (qYes * SCALE div b) * SCALE"
    using expApprox_ge [OF scaled_quot_nonneg, of qYes b] assms by (simp add: SCALE_def)
  have en: "0 \<le> expApprox (qNo * SCALE div b) * SCALE"
    using expApprox_ge [OF scaled_quot_nonneg, of qNo b] assms by (simp add: SCALE_def)
  have z: "exp_sum 0 0 b = 2 * SCALE" by (simp add: exp_sum_def expApprox_zero)
  have half: "SCALE * SCALE div (2 * SCALE) = 5 * 10 ^ 17" by (simp add: SCALE_def)
  show ?thesis
  proof (cases "qYes = 0 \<and> qNo = 0")
    case True
    then show ?thesis by (simp add: getPrice_def z expApprox_zero half)
  next
    case False
    have qy: "0 \<le> qYes * SCALE" using assms by (simp add: SCALE_def)
    have qn: "0 \<le> qNo * SCALE" using assms by (simp add: SCALE_def)
    have ne: "expApprox (qYes * SCALE div b) + expApprox (qNo * SCALE div b) \<noteq> 0"
      using pos by (simp add: exp_sum_def)
    have ps: "0 < expApprox (qYes * SCALE div b) + expApprox (qNo * SCALE div b)"
      using pos by (simp add: exp_sum_def)
    have nz: "(qYes = 0 \<and> qNo = 0) = False" using False by simp
    show ?thesis unfolding getPrice_def exp_sum_def nz
      using ne assms(3)
      by (simp add: ebind_def bigdiv_eq [OF qy] bigdiv_eq [OF qn] Let_def
          tdiv_div [OF ey ps] tdiv_div [OF en ps])
  qed
qed

lemma split_quot_sum:
  fixes a b s :: int
  assumes "0 < s" "a + b = k * s"
  shows "a div s + b div s = k \<or> a div s + b div s = k - 1"
proof -
  define p where "p = a div s"
  define q where "q = b div s"
  have ea: "p * s + a mod s = a" by (simp add: p_def)
  have eb: "q * s + b mod s = b" by (simp add: q_def)
  have ma: "0 \<le> a mod s" "a mod s < s" using assms(1) by simp_all
  have mb: "0 \<le> b mod s" "b mod s < s" using assms(1) by simp_all
  have "p * s + q * s \<le> k * s" using ea eb ma mb assms(2) by linarith
  then have "(p + q) * s \<le> k * s" by (simp add: distrib_right)
  then have lo: "p + q \<le> k" using assms(1) by (simp add: mult_le_cancel_right)
  have "k * s < p * s + q * s + 2 * s" using ea eb ma mb assms(2) by linarith
  then have "k * s < (p + q + 2) * s" by (simp add: distrib_right)
  then have hi: "k < p + q + 2" using assms(1) by (simp add: mult_less_cancel_right)
  from lo hi show ?thesis unfolding p_def q_def by linarith
qed

lemma price_sum_close:
  assumes "0 \<le> qYes" "0 \<le> qNo" "0 < b"
  shows "\<exists>pYes pNo. getPrice qYes qNo b = Inr (pYes, pNo)
           \<and> (pYes + pNo = SCALE \<or> pYes + pNo = SCALE - 1)"
proof -
  have "2 * SCALE \<le> exp_sum qYes qNo b" using assms by (rule exp_sum_ge)
  then have pos: "0 < exp_sum qYes qNo b" by (simp add: SCALE_def)
  have e: "expApprox (qYes * SCALE div b) * SCALE + expApprox (qNo * SCALE div b) * SCALE
             = SCALE * exp_sum qYes qNo b"
    by (simp add: exp_sum_def algebra_simps)
  from split_quot_sum [OF pos e] show ?thesis
    by (simp add: getPrice_eq [OF assms])
qed

lemma getCost_eq:
  assumes "0 \<le> qYes" "0 \<le> qNo" "0 < b"
  shows "getCost qYes qNo b = Inr (b * ln_value (exp_sum qYes qNo b) div SCALE)"
proof -
  have s: "2 * SCALE \<le> exp_sum qYes qNo b" using assms by (rule exp_sum_ge)
  then have pos: "0 < exp_sum qYes qNo b" by (simp add: SCALE_def)
  have sc: "0 < SCALE" by (simp add: SCALE_def)
  have nn: "\<And>v. 0 \<le> b * ln_value v" using assms(3) ln_value_nonneg by simp
  have z: "exp_sum 0 0 b = 2 * SCALE" by (simp add: exp_sum_def expApprox_zero)
  have two: "ln (2 * SCALE) = Inr (ln_value (2 * SCALE))" by (rule ln_eq) (simp add: SCALE_def)
  show ?thesis
  proof (cases "qYes = 0 \<and> qNo = 0")
    case True
    then show ?thesis by (simp add: getCost_def z two ebind_def tdiv_div [OF nn sc])
  next
    case False
    then have nz: "(qYes = 0 \<and> qNo = 0) = False" by simp
    have qy: "0 \<le> qYes * SCALE" using assms by (simp add: SCALE_def)
    have qn: "0 \<le> qNo * SCALE" using assms by (simp add: SCALE_def)
    have l: "ln (expApprox (qYes * SCALE div b) + expApprox (qNo * SCALE div b))
               = Inr (ln_value (exp_sum qYes qNo b))"
      using ln_eq [OF pos] by (simp add: exp_sum_def)
    show ?thesis unfolding getCost_def nz using assms(3)
      by (simp add: ebind_def bigdiv_eq [OF qy] bigdiv_eq [OF qn] Let_def l tdiv_div [OF nn sc])
  qed
qed

lemma exp_sum_mono:
  assumes "0 < b" "0 \<le> qYes" "qYes \<le> qYes'" "0 \<le> qNo" "qNo \<le> qNo'"
  shows "exp_sum qYes qNo b \<le> exp_sum qYes' qNo' b"
  unfolding exp_sum_def
  using expApprox_mono [OF scaled_quot_nonneg [OF assms(2) assms(1)] scaled_quot_mono [OF assms(3) assms(1)]]
        expApprox_mono [OF scaled_quot_nonneg [OF assms(4) assms(1)] scaled_quot_mono [OF assms(5) assms(1)]]
  by linarith

lemma exp_sum_commute: "exp_sum qYes qNo b = exp_sum qNo qYes b"
  by (simp add: exp_sum_def)

lemma cost_value_mono:
  assumes "0 < b" "s \<le> s'"
  shows "b * ln_value s div SCALE \<le> b * ln_value s' div SCALE"
  using assms ln_value_mono [OF assms(2)]
  by (intro zdiv_mono1 mult_left_mono) (simp_all add: SCALE_def)

lemma getCost_mono_both:
  assumes "0 < b" "0 \<le> qYes" "qYes \<le> qYes'" "0 \<le> qNo" "qNo \<le> qNo'"
  shows "\<exists>c c'. getCost qYes qNo b = Inr c \<and> getCost qYes' qNo' b = Inr c' \<and> c \<le> c'"
proof -
  have a: "0 \<le> qYes'" "0 \<le> qNo'" using assms by simp_all
  show ?thesis
    using cost_value_mono [OF assms(1) exp_sum_mono [OF assms]]
    by (simp add: getCost_eq [OF assms(2) assms(4) assms(1)] getCost_eq [OF a assms(1)])
qed

section \<open>The binary search of the share solver\<close>

lemma getCost_commute: "getCost qYes qNo b = getCost qNo qYes b"
  by (auto simp add: getCost_def ebind_def bigdiv_def Let_def add.commute)

lemma calculateShares_loop_exit:
  "\<not> (low < high \<and> it < 50) \<Longrightarrow> calculateShares_loop isYes qa qb b t low high it = Inr low"
  by (subst calculateShares_loop.simps, rule if_not_P)

lemma calculateShares_loop_throw:
  "low < high \<and> it < 50 \<Longrightarrow>
   getCost (if isYes then qa + tdiv (low + high) 2 else qa)
           (if isYes then qb else qb + tdiv (low + high) 2) b = Inl e \<Longrightarrow>
   calculateShares_loop isYes qa qb b t low high it = Inl e"
  by (subst calculateShares_loop.simps) simp

lemma calculateShares_loop_step:
  "low < high \<and> it < 50 \<Longrightarrow>
   getCost (if isYes then qa + tdiv (low + high) 2 else qa)
           (if isYes then qb else qb + tdiv (low + high) 2) b = Inr c \<Longrightarrow>
   calculateShares_loop isYes qa qb b t low high it =
     (if c < t
      then calculateShares_loop isYes qa qb b t (tdiv (low + high) 2 + 1) high (it + 1)
      else calculateShares_loop isYes qa qb b t low (tdiv (low + high) 2) (it + 1))"
  by (subst calculateShares_loop.simps) simp

lemma calculateShares_loop_swap:
  "calculateShares_loop isYes qa qb b t low high it
     = calculateShares_loop (\<not> isYes) qb qa b t low high it"
proof (induction isYes qa qb b t low high it rule: calculateShares_loop.induct)
  case (1 isYes qa qb b t low high it)
  let ?mid = "tdiv (low + high) 2"
  have gc': "getCost (if \<not> isYes then qb + ?mid else qb) (if \<not> isYes then qa else qa + ?mid) b
              = getCost (if isYes then qa + ?mid else qa) (if isYes then qb else qb + ?mid) b"
    by (simp add: getCost_commute)
  show ?case
  proof (cases "low < high \<and> it < 50")
    case False
    then show ?thesis by (simp add: calculateShares_loop_exit [OF False])
  next
    case guard: True
    show ?thesis
    proof (cases "getCost (if isYes then qa + ?mid else qa) (if isYes then qb else qb + ?mid) b")
      case (Inl e)
      then have "getCost (if \<not> isYes then qb + ?mid else qb) (if \<not> isYes then qa else qa + ?mid) b = Inl e"
        by (simp only: gc')
      from calculateShares_loop_throw [OF guard Inl] calculateShares_loop_throw [OF guard this]
      show ?thesis by simp
    next
      case (Inr c)
      then have o: "getCost (if \<not> isYes then qb + ?mid else qb) (if \<not> isYes then qa else qa + ?mid) b = Inr c"
        by (simp only: gc')
      note l = calculateShares_loop_step [OF guard Inr, of t]
      note r = calculateShares_loop_step [OF guard o, of t]
      show ?thesis
      proof (cases "c < t")
        case True
        from "1.IH"(1) [OF guard Inr True] True show ?thesis by (simp only: l r if_True)
      next
        case False
        from "1.IH"(2) [OF guard Inr False] False show ?thesis by (simp only: l r if_False)
      qed
    qed
  qed
qed

lemma calculateShares_swap:
  "calculateShares payAmount True q q b = calculateShares payAmount False q q b"
  using calculateShares_loop_swap [of True q q b _ 0 "payAmount * 10" 0]
  by (simp add: calculateShares_def)

lemma shares_cost_eq:
  assumes "0 < b" "0 \<le> qYes" "0 \<le> qNo" "0 \<le> s"
  shows "getCost (if isYes then qYes + s else qYes) (if isYes then qNo else qNo + s) b
           = Inr (shares_cost isYes qYes qNo b s)"
  using assms by (simp add: getCost_eq shares_cost_def)

lemma shares_cost_mono:
  assumes "0 < b" "0 \<le> qYes" "0 \<le> qNo" "0 \<le> s" "s \<le> s'"
  shows "shares_cost isYes qYes qNo b s \<le> shares_cost isYes qYes qNo b s'"
  unfolding shares_cost_def
  using assms by (intro cost_value_mono exp_sum_mono) simp_all

lemma shares_cost_zero:
  "0 < b \<Longrightarrow> 0 \<le> qYes \<Longrightarrow> 0 \<le> qNo \<Longrightarrow> getCost qYes qNo b = Inr (shares_cost isYes qYes qNo b 0)"
  using shares_cost_eq [of b qYes qNo 0 isYes] by (cases isYes) simp_all

lemma calculateShares_loop_invariant:
  assumes "0 < b" "0 \<le> qYes" "0 \<le> qNo" "0 \<le> low" "low \<le> high"
  shows "\<exists>r. calculateShares_loop isYes qYes qNo b t low high it = Inr r
           \<and> low \<le> r \<and> r \<le> high
           \<and> ((\<forall>s. 0 \<le> s \<and> s < low \<longrightarrow> shares_cost isYes qYes qNo b s < t)
                \<longrightarrow> (\<forall>s. 0 \<le> s \<and> s < r \<longrightarrow> shares_cost isYes qYes qNo b s < t))"
  using assms
proof (induction isYes qYes qNo b t low high it rule: calculateShares_loop.induct)
  case (1 isYes qYes qNo b t low high it)
  let ?mid = "tdiv (low + high) 2"
  let ?inv = "\<lambda>n. \<forall>s. 0 \<le> s \<and> s < n \<longrightarrow> shares_cost isYes qYes qNo b s < t"
  show ?case
  proof (cases "low < high \<and> it < 50")
    case False
    then have "calculateShares_loop isYes qYes qNo b t low high it = Inr low"
      by (rule calculateShares_loop_exit)
    with "1.prems" show ?thesis by simp
  next
    case guard: True
    have m: "?mid = (low + high) div 2" using "1.prems"(4,5) by (simp add: tdiv_div)
    have lm: "low \<le> ?mid" "?mid < high" using guard m by arith+
    then have m0: "0 \<le> ?mid" using "1.prems"(4) by simp
    have gc: "getCost (if isYes then qYes + ?mid else qYes) (if isYes then qNo else qNo + ?mid) b
                = Inr (shares_cost isYes qYes qNo b ?mid)"
      using "1.prems"(1,2,3) m0 by (rule shares_cost_eq)
    show ?thesis
    proof (cases "shares_cost isYes qYes qNo b ?mid < t")
      case True
      have inv: "?inv (?mid + 1)"
      proof (intro allI impI)
        fix s assume "0 \<le> s \<and> s < ?mid + 1"
        then have "shares_cost isYes qYes qNo b s \<le> shares_cost isYes qYes qNo b ?mid"
          using "1.prems"(1,2,3) by (intro shares_cost_mono) simp_all
        with True show "shares_cost isYes qYes qNo b s < t" by simp
      qed
      have "0 \<le> ?mid + 1" "?mid + 1 \<le> high" using m0 lm by simp_all
      from "1.IH"(1) [OF guard gc True "1.prems"(1,2,3) this]
      obtain r where r: "calculateShares_loop isYes qYes qNo b t (?mid + 1) high (it + 1) = Inr r"
        "?mid + 1 \<le> r" "r \<le> high" "?inv (?mid + 1) \<longrightarrow> ?inv r" by blast
      have "calculateShares_loop isYes qYes qNo b t low high it = Inr r"
        using calculateShares_loop_step [OF guard gc, of t] True r(1) by simp
      moreover have "?inv r" using r(4) inv by blast
      ultimately show ?thesis using r(2,3) lm by simp
    next
      case False
      from "1.IH"(2) [OF guard gc False "1.prems"(1,2,3,4) lm(1)]
      obtain r where r: "calculateShares_loop isYes qYes qNo b t low ?mid (it + 1) = Inr r"
        "low \<le> r" "r \<le> ?mid" "?inv low \<longrightarrow> ?inv r" by blast
      have "calculateShares_loop isYes qYes qNo b t low high it = Inr r"
        using calculateShares_loop_step [OF guard gc, of t] False r(1) by simp
      with r lm show ?thesis by simp
    qed
  qed
qed

lemma calculateShares_result:
  assumes "0 \<le> payAmount" "0 \<le> qYes" "0 \<le> qNo" "0 < b"
  shows "\<exists>r. calculateShares payAmount isYes qYes qNo b = Inr r
           \<and> 0 \<le> r \<and> r \<le> payAmount * 10
           \<and> (\<forall>s. 0 \<le> s \<and> s < r \<longrightarrow>
                 shares_cost isYes qYes qNo b s < shares_cost isYes qYes qNo b 0 + payAmount)"
proof -
  have z: "getCost qYes qNo b = Inr (shares_cost isYes qYes qNo b 0)"
    using assms by (simp add: shares_cost_zero)
  have h: "(0::int) \<le> payAmount * 10" using assms(1) by simp
  from calculateShares_loop_invariant [OF assms(4) assms(2) assms(3) order_refl h,
      of isYes "shares_cost isYes qYes qNo b 0 + payAmount" 0]
  show ?thesis by (simp add: calculateShares_def z ebind_def)
qed

lemma halving_gap:
  fixes g :: int
  assumes "it < 50" "0 \<le> g" "g' \<le> g div 2"
  shows "g' div 2 ^ (50 - (it + 1)) \<le> g div 2 ^ (50 - it)"
proof -
  have e: "50 - it = Suc (50 - (it + 1))" using assms(1) by simp
  have "g div 2 ^ (50 - it) = g div (2 * 2 ^ (50 - (it + 1)))" by (simp only: e power_Suc)
  also have "\<dots> = g div 2 div 2 ^ (50 - (it + 1))" by (rule zdiv_zmult2_eq) simp
  finally have "g div 2 ^ (50 - it) = g div 2 div 2 ^ (50 - (it + 1))" .
  moreover have "g' div 2 ^ (50 - (it + 1)) \<le> g div 2 div 2 ^ (50 - (it + 1))"
    using assms(3) by (intro zdiv_mono1) simp_all
  ultimately show ?thesis by simp
qed

lemma calculateShares_loop_gap:
  assumes "0 < b" "0 \<le> qYes" "0 \<le> qNo" "0 \<le> low" "low \<le> high"
    and "high = H \<or> t \<le> shares_cost isYes qYes qNo b high"
  shows "\<exists>r h. calculateShares_loop isYes qYes qNo b t low high it = Inr r
           \<and> r \<le> h \<and> h \<le> high \<and> h - r \<le> (high - low) div 2 ^ (50 - it)
           \<and> (h = H \<or> t \<le> shares_cost isYes qYes qNo b h)"
  using assms
proof (induction isYes qYes qNo b t low high it rule: calculateShares_loop.induct)
  case (1 isYes qYes qNo b t low high it)
  let ?mid = "tdiv (low + high) 2"
  show ?case
  proof (cases "low < high \<and> it < 50")
    case False
    then have e: "calculateShares_loop isYes qYes qNo b t low high it = Inr low"
      by (rule calculateShares_loop_exit)
    have "high - low \<le> (high - low) div 2 ^ (50 - it)"
    proof (cases "low < high")
      case True
      with False have "50 - it = 0" by simp
      then show ?thesis by simp
    next
      case False
      with "1.prems"(5) show ?thesis by simp
    qed
    with e "1.prems"(5,6) show ?thesis by blast
  next
    case guard: True
    have m: "?mid = (low + high) div 2" using "1.prems"(4,5) by (simp add: tdiv_div)
    have lm: "low \<le> ?mid" "?mid < high" using guard m by arith+
    then have m0: "0 \<le> ?mid" using "1.prems"(4) by simp
    have it: "it < 50" using guard by simp
    have g0: "0 \<le> high - low" using "1.prems"(5) by simp
    have gc: "getCost (if isYes then qYes + ?mid else qYes) (if isYes then qNo else qNo + ?mid) b
                = Inr (shares_cost isYes qYes qNo b ?mid)"
      using "1.prems"(1,2,3) m0 by (rule shares_cost_eq)
    show ?thesis
    proof (cases "shares_cost isYes qYes qNo b ?mid < t")
      case True
      have v: "0 \<le> ?mid + 1" "?mid + 1 \<le> high" using m0 lm by simp_all
      from "1.IH"(1) [OF guard gc True "1.prems"(1,2,3) v "1.prems"(6)]
      obtain r h where r: "calculateShares_loop isYes qYes qNo b t (?mid + 1) high (it + 1) = Inr r"
        "r \<le> h" "h \<le> high" "h - r \<le> (high - (?mid + 1)) div 2 ^ (50 - (it + 1))"
        "h = H \<or> t \<le> shares_cost isYes qYes qNo b h" by blast
      have "high - (?mid + 1) \<le> (high - low) div 2" using m guard by arith
      from halving_gap [OF it g0 this] r(4)
      have gap: "h - r \<le> (high - low) div 2 ^ (50 - it)" by simp
      have "calculateShares_loop isYes qYes qNo b t low high it = Inr r"
        using calculateShares_loop_step [OF guard gc, of t] True r(1) by simp
      with r(2,3,5) gap show ?thesis by blast
    next
      case False
      then have reach: "?mid = H \<or> t \<le> shares_cost isYes qYes qNo b ?mid" by simp
      from "1.IH"(2) [OF guard gc False "1.prems"(1,2,3,4) lm(1) reach]
      obtain r h where r: "calculateShares_loop isYes qYes qNo b t low ?mid (it + 1) = Inr r"
        "r \<le> h" "h \<le> ?mid" "h - r \<le> (?mid - low) div 2 ^ (50 - (it + 1))"
        "h = H \<or> t \<le> shares_cost isYes qYes qNo b h" by blast
      have "?mid - low \<le> (high - low) div 2" using m guard by arith
      from halving_gap [OF it g0 this] r(4)
      have gap: "h - r \<le> (high - low) div 2 ^ (50 - it)" by simp
      have "calculateShares_loop isYes qYes qNo b t low high it = Inr r"
        using calculateShares_loop_step [OF guard gc, of t] False r(1) by simp
      moreover have "h \<le> high" using r(3) lm(2) by simp
      ultimately show ?thesis using r(2,5) gap by blast
    qed
  qed
qed

lemma calculateShares_crossing:
  assumes "0 \<le> payAmount" "0 \<le> qYes" "0 \<le> qNo" "0 < b"
  shows "\<exists>r h. calculateShares payAmount isYes qYes qNo b = Inr r
           \<and> r \<le> h \<and> h \<le> payAmount * 10 \<and> h - r \<le> payAmount * 10 div 2 ^ 50
           \<and> (h = payAmount * 10
                \<or> shares_cost isYes qYes qNo b 0 + payAmount \<le> shares_cost isYes qYes qNo b h)"
proof -
  have z: "getCost qYes qNo b = Inr (shares_cost isYes qYes qNo b 0)"
    using assms by (simp add: shares_cost_zero)
  have h: "(0::int) \<le> payAmount * 10" using assms(1) by simp
  have i: "payAmount * 10 = payAmount * 10
             \<or> shares_cost isYes qYes qNo b 0 + payAmount
                  \<le> shares_cost isYes qYes qNo b (payAmount * 10)" by simp
  from calculateShares_loop_gap [OF assms(4) assms(2) assms(3) order_refl h i, of 0]
  show ?thesis by (simp add: calculateShares_def z ebind_def)
qed

section \<open>Evaluation by division certificates\<close>

text \<open>
  Quotients of large numerals are checked by multiplication: \<open>a div b = q\<close> follows from
  \<open>b * q \<le> a < b * q + b\<close>.
\<close>

lemma ebind_Inr: "ebind (Inr v) f = f v"
  by (simp add: ebind_def)

lemma div_cert:
  fixes a b q :: int
  assumes "0 < b" "b * q \<le> a" "a < b * q + b"
  shows "a div b = q"
  using assms by (intro int_div_pos_eq [of a b q "a - b * q"]) simp_all

lemma tdiv_cert:
  assumes "0 \<le> a" "0 < b" "b * q \<le> a" "a < b * q + b"
  shows "tdiv a b = q"
  using assms by (simp add: tdiv_div div_cert)

lemma calculateShares_loop_unfold:
  assumes "0 < b" "0 \<le> qYes" "0 \<le> qNo" "0 \<le> low" "low < high" "it < 50"
    and "2 * mid \<le> low + high" "low + high < 2 * mid + 2"
  shows "calculateShares_loop isYes qYes qNo b t low high it =
           (if shares_cost isYes qYes qNo b mid < t
            then calculateShares_loop isYes qYes qNo b t (mid + 1) high (Suc it)
            else calculateShares_loop isYes qYes qNo b t low mid (Suc it))"
proof -
  have m0: "0 \<le> mid" using assms(4,5,8) by simp
  have m: "tdiv (low + high) 2 = mid" using assms(4,5,7,8) by (intro tdiv_cert) simp_all
  have g: "low < high \<and> it < 50" using assms(5,6) by simp
  have gc: "getCost (if isYes then qYes + tdiv (low + high) 2 else qYes)
                    (if isYes then qNo else qNo + tdiv (low + high) 2) b
              = Inr (shares_cost isYes qYes qNo b mid)"
    unfolding m using assms(1,2,3) m0 by (rule shares_cost_eq)
  from calculateShares_loop_step [OF g gc, of t] show ?thesis by (simp add: m)
qed

lemma expApprox_cert:
  assumes "0 < x" "x < 42 * SCALE"
    and "2 * SCALE * t2 \<le> x * x" "x * x < 2 * SCALE * t2 + 2 * SCALE"
    and "3 * SCALE * t3 \<le> t2 * x" "t2 * x < 3 * SCALE * t3 + 3 * SCALE"
    and "4 * SCALE * t4 \<le> t3 * x" "t3 * x < 4 * SCALE * t4 + 4 * SCALE"
    and "5 * SCALE * t5 \<le> t4 * x" "t4 * x < 5 * SCALE * t5 + 5 * SCALE"
  shows "expApprox x = SCALE + x + t2 + t3 + t4 + t5"
proof -
  have c: "0 < 2 * SCALE" "0 < 3 * SCALE" "0 < 4 * SCALE" "0 < 5 * SCALE"
    by (simp_all add: SCALE_def)
  have x0: "0 \<le> x" using assms(1) by simp
  have d2: "tdiv (x * x) (2 * SCALE) = t2"
    using assms(3,4) c(1) by (intro tdiv_cert) simp_all
  have p2: "0 \<le> t2" using tdiv_nonneg [of "x * x" "2 * SCALE"] c(1) d2 by simp
  have d3: "tdiv (t2 * x) (3 * SCALE) = t3"
    using assms(5,6) c(2) p2 x0 by (intro tdiv_cert) simp_all
  have p3: "0 \<le> t3" using tdiv_nonneg [of "t2 * x" "3 * SCALE"] c(2) d3 p2 x0 by simp
  have d4: "tdiv (t3 * x) (4 * SCALE) = t4"
    using assms(7,8) c(3) p3 x0 by (intro tdiv_cert) simp_all
  have p4: "0 \<le> t4" using tdiv_nonneg [of "t3 * x" "4 * SCALE"] c(3) d4 p3 x0 by simp
  have d5: "tdiv (t4 * x) (5 * SCALE) = t5"
    using assms(9,10) c(4) p4 x0 by (intro tdiv_cert) simp_all
  show ?thesis using assms(1,2) by (simp add: expApprox_taylor5 taylor5_def d2 d3 d4 d5)
qed

lemma log2_value_closed:
  assumes "2 ^ k * h \<le> y" "y < 2 ^ k * h + 2 ^ k" "SCALE \<le> h" "h < 2 * SCALE"
  shows "log2_value y r = r + int k * SCALE + log2_frac h"
  using assms(1,2)
proof (induction k arbitrary: y r)
  case 0
  then have "y = h" by simp
  with assms(4) show ?case by (simp add: log2_value_stop)
next
  case (Suc k)
  have h0: "0 \<le> h" using assms(3) by (simp add: SCALE_def)
  have "(1::int) \<le> 2 ^ k" by simp
  then have "1 * h \<le> 2 ^ k * h" using h0 by (intro mult_right_mono)
  then have "2 * SCALE \<le> 2 * (2 ^ k * h)" using assms(3) by simp
  then have big: "2 * SCALE \<le> y" using Suc.prems(1) by simp
  have lo: "2 ^ k * h \<le> y div 2" using Suc.prems(1) by simp
  have hi: "y div 2 < 2 ^ k * h + 2 ^ k" using Suc.prems(2) by simp
  from Suc.IH [OF lo hi, of "r + SCALE"] big show ?case
    by (simp add: log2_value_step algebra_simps)
qed

lemma cost_cert:
  assumes "0 < b" "0 \<le> qa" "0 \<le> qb"
    and "b * xa \<le> qa * SCALE" "qa * SCALE < b * xa + b"
    and "b * xb \<le> qb * SCALE" "qb * SCALE < b * xb + b"
    and "expApprox xa + expApprox xb = s"
    and "2 ^ k * h \<le> s" "s < 2 ^ k * h + 2 ^ k" "SCALE \<le> h" "h < 2 * SCALE"
    and "v = int k * SCALE + log2_frac h"
    and "SCALE * l \<le> v * LN2" "v * LN2 < SCALE * l + SCALE"
    and "SCALE * c \<le> b * l" "b * l < SCALE * c + SCALE"
  shows "b * ln_value (exp_sum qa qb b) div SCALE = c"
proof -
  have sc: "0 < SCALE" by (simp add: SCALE_def)
  have "qa * SCALE div b = xa" using assms(1,4,5) by (rule div_cert)
  moreover have "qb * SCALE div b = xb" using assms(1,6,7) by (rule div_cert)
  ultimately have "exp_sum qa qb b = s" using assms(8) by (simp add: exp_sum_def)
  moreover have "log2_value s 0 = v"
    using log2_value_closed [OF assms(9,10,11,12), of 0] assms(13) by simp
  moreover have "v * LN2 div SCALE = l" using sc assms(14,15) by (rule div_cert)
  moreover have "b * l div SCALE = c" using sc assms(16,17) by (rule div_cert)
  ultimately show ?thesis by (simp add: ln_value_def)
qed

lemma previewTrade_fields:
  assumes "0 \<le> payAmount - tdiv (payAmount * feeRate) 10000" "0 \<le> qYes" "0 \<le> qNo" "0 < b"
  shows "\<exists>p. previewTrade payAmount isYes qYes qNo b feeRate = Inr p
           \<and> fee p = tdiv (payAmount * feeRate) 10000
           \<and> netAmount p = payAmount - tdiv (payAmount * feeRate) 10000
           \<and> calculateShares (netAmount p) isYes qYes qNo b = Inr (expectedShares p)"
proof -
  let ?net = "payAmount - tdiv (payAmount * feeRate) 10000"
  from calculateShares_result [OF assms, of isYes] obtain r where
    r: "calculateShares ?net isYes qYes qNo b = Inr r" "0 \<le> r" by blast
  have ny: "0 \<le> (if isYes then qYes + r else qYes)" using assms(2) r(2) by simp
  have nn: "0 \<le> (if isYes then qNo else qNo + r)" using assms(3) r(2) by simp
  show ?thesis
    by (simp add: previewTrade_def Let_def r(1) ebind_Inr getPrice_eq [OF ny nn assms(4)]
        getPrice_eq [OF assms(2,3,4)])
qed

lemma expApprox_one: "expApprox 1000000000000000000 = 2716666666666666665"
proof -
  have "expApprox 1000000000000000000 = SCALE + 1000000000000000000 + 500000000000000000 + 166666666666666666
          + 41666666666666666 + 8333333333333333"
    by (rule expApprox_cert) (simp_all add: SCALE_def)
  then show ?thesis by (simp add: SCALE_def)
qed

lemma scenario_cost_0:
  "shares_cost True (100 * 10 ^ 18) (100 * 10 ^ 18) (100 * 10 ^ 18) 0 = 160810145889907319800"
  unfolding shares_cost_def
  by (simp only: if_True, rule cost_cert [where xa = "10 ^ 18" and xb = "10 ^ 18"
        and s = 5433333333333333330 and k = 2 and h = 1358333333333333332
        and v = 2320000000000000000 and l = 1608101458899073198])
     (simp_all add: expApprox_one SCALE_def LN2_def log2_frac_def)

lemma expApprox_mid2: "expApprox 3487500000000000000 = 28101352340187072753"
proof -
  have "expApprox 3487500000000000000 = SCALE + 3487500000000000000 + 6081328125000000000
          + 7069543945312500000 + 6163758627319335937 + 4299221642555236816"
    by (rule expApprox_cert) (simp_all add: SCALE_def)
  then show ?thesis by (simp add: SCALE_def)
qed

lemma scenario_cost_mid2:
  "shares_cost True (100 * 10 ^ 18) (100 * 10 ^ 18) (100 * 10 ^ 18) (24875 * 10 ^ 16)
     = 311916231251975404800"
  unfolding shares_cost_def
  by (simp only: if_True, rule cost_cert [where xa = 3487500000000000000 and xb = "10 ^ 18"
        and s = 30818019006853739418 and k = 4 and h = 1926126187928358713
        and v = 4500000000000000000 and l = 3119162312519754048])
     (simp_all add: expApprox_one expApprox_mid2 SCALE_def LN2_def log2_frac_def)

lemma expApprox_mid3: "expApprox 2243750000000000000 = 9173578103589932122"
proof -
  have "expApprox 2243750000000000000 = SCALE + 2243750000000000000 + 2517207031250000000
          + 1882661092122395833 + 1056055206362406412 + 473904773855129877"
    by (rule expApprox_cert) (simp_all add: SCALE_def)
  then show ?thesis by (simp add: SCALE_def)
qed

lemma scenario_cost_mid3:
  "shares_cost True (100 * 10 ^ 18) (100 * 10 ^ 18) (100 * 10 ^ 18) (124375 * 10 ^ 15)
     = 230124863945901854200"
  unfolding shares_cost_def
  by (simp only: if_True, rule cost_cert [where xa = 2243750000000000000 and xb = "10 ^ 18"
        and s = 11890244770256598787 and k = 3 and h = 1486280596282074848
        and v = 3320000000000000000 and l = 2301248639459018542])
     (simp_all add: expApprox_one expApprox_mid3 SCALE_def LN2_def log2_frac_def)

lemma scenario_shares_lower:
  "\<exists>r. calculateShares (995 * 10 ^ 17) True (100 * 10 ^ 18) (100 * 10 ^ 18) (100 * 10 ^ 18) = Inr r
       \<and> 124375 * 10 ^ 15 < r"
proof -
  let ?q = "100 * 10 ^ 18 :: int"
  let ?t = "160810145889907319800 + 995 * 10 ^ 17 :: int"
  have c0: "getCost ?q ?q ?q = Inr 160810145889907319800"
    using shares_cost_zero [of ?q ?q ?q True] by (simp only: scenario_cost_0) simp
  have "shares_cost True ?q ?q ?q (24875 * 10 ^ 16) \<le> shares_cost True ?q ?q ?q (4975 * 10 ^ 17)"
    by (rule shares_cost_mono) simp_all
  then have m1: "\<not> shares_cost True ?q ?q ?q (4975 * 10 ^ 17) < ?t"
    using scenario_cost_mid2 by simp
  have m2: "\<not> shares_cost True ?q ?q ?q (24875 * 10 ^ 16) < ?t"
    using scenario_cost_mid2 by simp
  have m3: "shares_cost True ?q ?q ?q (124375 * 10 ^ 15) < ?t"
    using scenario_cost_mid3 by simp
  have s1: "calculateShares_loop True ?q ?q ?q ?t 0 (995 * 10 ^ 17 * 10) 0
              = calculateShares_loop True ?q ?q ?q ?t 0 (4975 * 10 ^ 17) (Suc 0)"
    using m1 by (subst calculateShares_loop_unfold [where mid = "4975 * 10 ^ 17"]) simp_all
  have s2: "calculateShares_loop True ?q ?q ?q ?t 0 (4975 * 10 ^ 17) (Suc 0)
              = calculateShares_loop True ?q ?q ?q ?t 0 (24875 * 10 ^ 16) (Suc (Suc 0))"
    using m2 by (subst calculateShares_loop_unfold [where mid = "24875 * 10 ^ 16"]) simp_all
  have s3: "calculateShares_loop True ?q ?q ?q ?t 0 (24875 * 10 ^ 16) (Suc (Suc 0))
              = calculateShares_loop True ?q ?q ?q ?t (124375 * 10 ^ 15 + 1) (24875 * 10 ^ 16)
                  (Suc (Suc (Suc 0)))"
    using m3 by (subst calculateShares_loop_unfold [where mid = "124375 * 10 ^ 15"]) simp_all
  have v: "(0::int) < ?q" "(0::int) \<le> ?q" "(0::int) \<le> 124375 * 10 ^ 15 + 1"
    "(124375 * 10 ^ 15 + 1 :: int) \<le> 24875 * 10 ^ 16" by simp_all
  from calculateShares_loop_invariant [OF v(1) v(2) v(2) v(3) v(4), of True ?t "Suc (Suc (Suc 0))"]
  obtain r where r: "calculateShares_loop True ?q ?q ?q ?t (124375 * 10 ^ 15 + 1) (24875 * 10 ^ 16)
      (Suc (Suc (Suc 0))) = Inr r" "124375 * 10 ^ 15 + 1 \<le> r" by blast
  have "calculateShares (995 * 10 ^ 17) True ?q ?q ?q = Inr r"
    unfolding calculateShares_def c0 ebind_Inr s1 s2 s3 by (rule r(1))
  with r(2) show ?thesis by auto
qed

lemma expApprox_half: "expApprox 500000000000000000 = 1648697916666666665"
proof -
  have "expApprox 500000000000000000 = SCALE + 500000000000000000 + 125000000000000000
          + 20833333333333333 + 2604166666666666 + 260416666666666"
    by (rule expApprox_cert) (simp_all add: SCALE_def)
  then show ?thesis by (simp add: SCALE_def)
qed

lemma expApprox_two_fifths: "expApprox 400000000000000000 = 1491818666666666665"
proof -
  have "expApprox 400000000000000000 = SCALE + 400000000000000000 + 80000000000000000
          + 10666666666666666 + 1066666666666666 + 85333333333333"
    by (rule expApprox_cert) (simp_all add: SCALE_def)
  then show ?thesis by (simp add: SCALE_def)
qed

lemma small_cost_0: "shares_cost True 0 0 10 0 = 6"
  unfolding shares_cost_def
  by (simp only: if_True, rule cost_cert [where xa = 0 and xb = 0
        and s = 2000000000000000000 and k = 1 and h = 1000000000000000000
        and v = 1000000000000000000 and l = 693147180559945344])
     (simp_all add: expApprox_zero SCALE_def LN2_def log2_frac_def)

lemma small_cost_4: "shares_cost True 0 0 10 4 = 6"
  unfolding shares_cost_def
  by (simp only: if_True, rule cost_cert [where xa = 400000000000000000 and xb = 0
        and s = 2491818666666666665 and k = 1 and h = 1245909333333333332
        and v = 1000000000000000000 and l = 693147180559945344])
     (simp_all add: expApprox_zero expApprox_two_fifths SCALE_def LN2_def log2_frac_def)

lemma small_cost_5: "shares_cost True 0 0 10 5 = 9"
  unfolding shares_cost_def
  by (simp only: if_True, rule cost_cert [where xa = 500000000000000000 and xb = 0
        and s = 2648697916666666665 and k = 1 and h = 1324348958333333332
        and v = 1320000000000000000 and l = 914954278339127854])
     (simp_all add: expApprox_zero expApprox_half SCALE_def LN2_def log2_frac_def)

lemma small_shares: "calculateShares 1 True 0 0 10 = Inr 5"
proof -
  have c0: "getCost 0 0 10 = Inr 6"
    using shares_cost_zero [of 10 0 0 True] by (simp add: small_cost_0)
  have "shares_cost True 0 0 10 2 \<le> shares_cost True 0 0 10 4"
    by (rule shares_cost_mono) simp_all
  then have m2: "shares_cost True 0 0 10 2 < 6 + 1" by (simp add: small_cost_4)
  have s1: "calculateShares_loop True 0 0 10 (6 + 1) 0 (1 * 10) 0
              = calculateShares_loop True 0 0 10 (6 + 1) 0 5 (Suc 0)"
    by (subst calculateShares_loop_unfold [where mid = 5]) (simp_all add: small_cost_5)
  have s2: "calculateShares_loop True 0 0 10 (6 + 1) 0 5 (Suc 0)
              = calculateShares_loop True 0 0 10 (6 + 1) (2 + 1) 5 (Suc (Suc 0))"
    using m2 by (subst calculateShares_loop_unfold [where mid = 2]) simp_all
  have s3: "calculateShares_loop True 0 0 10 (6 + 1) (2 + 1) 5 (Suc (Suc 0))
              = calculateShares_loop True 0 0 10 (6 + 1) (4 + 1) 5 (Suc (Suc (Suc 0)))"
    by (subst calculateShares_loop_unfold [where mid = 4]) (simp_all add: small_cost_4)
  have s4: "calculateShares_loop True 0 0 10 (6 + 1) (4 + 1) 5 (Suc (Suc (Suc 0))) = Inr (4 + 1)"
    by (rule calculateShares_loop_exit) simp
  show ?thesis unfolding calculateShares_def c0 ebind_Inr s1 s2 s3 s4 by simp
qed

lemma scenario_preview:
  "\<exists>p. previewTrade (100 * 10 ^ 18) isYes (100 * 10 ^ 18) (100 * 10 ^ 18) (100 * 10 ^ 18) 50 = Inr p
       \<and> fee p = 5 * 10 ^ 17 \<and> netAmount p = 995 * 10 ^ 17
       \<and> 124375 * 10 ^ 15 < expectedShares p"
proof -
  let ?q = "100 * 10 ^ 18 :: int"
  have f: "tdiv (?q * 50) 10000 = 5 * 10 ^ 17" by (rule tdiv_cert) simp_all
  have v: "0 \<le> ?q - tdiv (?q * 50) 10000" "0 \<le> ?q" "0 < ?q" unfolding f by simp_all
  from previewTrade_fields [OF v(1) v(2) v(2) v(3), of isYes] obtain p where
    p: "previewTrade ?q isYes ?q ?q ?q 50 = Inr p" "fee p = tdiv (?q * 50) 10000"
    "netAmount p = ?q - tdiv (?q * 50) 10000"
    "calculateShares (netAmount p) isYes ?q ?q ?q = Inr (expectedShares p)" by blast
  have n: "netAmount p = 995 * 10 ^ 17" using p(3) unfolding f by simp
  from scenario_shares_lower obtain r where
    r: "calculateShares (995 * 10 ^ 17) True ?q ?q ?q = Inr r" "124375 * 10 ^ 15 < r" by blast
  have "calculateShares (995 * 10 ^ 17) isYes ?q ?q ?q = Inr r"
    using r(1) calculateShares_swap [of "995 * 10 ^ 17" ?q ?q] by (cases isYes) simp_all
  with p(4) n have "expectedShares p = r" by simp
  with r(2) have "124375 * 10 ^ 15 < expectedShares p" by simp
  with p(1,2) n f show ?thesis by auto
qed

section \<open>The Babylonian square root and the liquidity parameter\<close>

lemma newton_step_upper:
  fixes x y :: int
  assumes "0 \<le> x" "0 < y"
  shows "x < ((x div y + y) div 2 + 1)\<^sup>2"
proof -
  define q where "q = x div y"
  define t where "t = (q + y) div 2"
  have q0: "0 \<le> q" using assms by (simp add: q_def pos_imp_zdiv_nonneg_iff)
  have "y * q + x mod y = x" by (simp add: q_def)
  moreover have "x mod y < y" using assms(2) by simp
  ultimately have "x < y * q + y" by linarith
  then have xq: "x < (q + 1) * y" by (simp add: algebra_simps)
  have t2: "q + 1 + y \<le> 2 * (t + 1)" unfolding t_def by arith
  have "(q + 1 + y)\<^sup>2 = (q + 1 - y)\<^sup>2 + 4 * ((q + 1) * y)"
    by (simp add: power2_eq_square algebra_simps)
  moreover have "0 \<le> (q + 1 - y)\<^sup>2" by simp
  ultimately have am: "4 * ((q + 1) * y) \<le> (q + 1 + y)\<^sup>2" by linarith
  have "(q + 1 + y)\<^sup>2 \<le> (2 * (t + 1))\<^sup>2"
    using t2 q0 assms(2) by (intro power_mono) simp_all
  also have "\<dots> = 4 * (t + 1)\<^sup>2" by (simp only: power_mult_distrib) simp
  finally have "4 * ((q + 1) * y) \<le> 4 * (t + 1)\<^sup>2" using am by linarith
  with xq have "x < (t + 1)\<^sup>2" by linarith
  then show ?thesis by (simp add: t_def q_def)
qed

lemma newton_stop_lower:
  fixes x y :: int
  assumes "0 < y" "y \<le> (x div y + y) div 2"
  shows "y\<^sup>2 \<le> x"
proof -
  have "y \<le> x div y" using assms(2) by arith
  then have "y * y \<le> y * (x div y)" using assms(1) by (intro mult_left_mono) simp_all
  moreover have "y * (x div y) + x mod y = x" by simp
  moreover have "0 \<le> x mod y" using assms(1) by simp
  ultimately have "y * y \<le> x" by linarith
  then show ?thesis by (simp add: power2_eq_square)
qed

lemma sqrt_loop_correct:
  assumes "0 < x"
  shows "0 < y \<Longrightarrow> x < (y + 1)\<^sup>2 \<Longrightarrow>
         \<exists>s. sqrt_loop x ((x div y + y) div 2) y = Some (Inr s)
              \<and> 0 < s \<and> s\<^sup>2 \<le> x \<and> x < (s + 1)\<^sup>2"
proof (induction "nat y" arbitrary: y rule: less_induct)
  case less
  let ?z = "(x div y + y) div 2"
  have x0: "0 \<le> x" using assms by simp
  have "0 \<le> x div y" using x0 less.prems(1) by (simp add: pos_imp_zdiv_nonneg_iff)
  then have z0: "0 \<le> ?z" using less.prems(1) by simp
  have up: "x < (?z + 1)\<^sup>2" using x0 less.prems(1) by (rule newton_step_upper)
  show ?case
  proof (cases "?z < y")
    case True
    have "?z \<noteq> 0" using up assms by auto
    with z0 have zpos: "0 < ?z" by simp
    have "0 \<le> x div ?z" using x0 zpos by (simp add: pos_imp_zdiv_nonneg_iff)
    then have td: "tdiv (tdiv x ?z + ?z) 2 = (x div ?z + ?z) div 2"
      using x0 zpos by (simp add: tdiv_div)
    have "sqrt_loop x ?z y = sqrt_loop x ((x div ?z + ?z) div 2) ?z"
      using True zpos td by (subst sqrt_loop.simps) simp
    moreover have "nat ?z < nat y" using True zpos by simp
    from less.hyps [OF this zpos up]
    obtain s where "sqrt_loop x ((x div ?z + ?z) div 2) ?z = Some (Inr s)"
      "0 < s" "s\<^sup>2 \<le> x" "x < (s + 1)\<^sup>2" by blast
    ultimately show ?thesis by simp
  next
    case False
    then have "sqrt_loop x ?z y = Some (Inr y)" by (subst sqrt_loop.simps) simp
    moreover have "y\<^sup>2 \<le> x" using less.prems(1) False by (intro newton_stop_lower) simp_all
    ultimately show ?thesis using less.prems by simp
  qed
qed

lemma sqrt_correct:
  assumes "0 \<le> x"
  shows "\<exists>s. sqrt x = Some (Inr s) \<and> 0 \<le> s \<and> s\<^sup>2 \<le> x \<and> x < (s + 1)\<^sup>2"
proof (cases "x = 0")
  case True
  then show ?thesis by (simp add: sqrt_def)
next
  case False
  with assms have pos: "0 < x" by simp
  have "0 \<le> x * x" by simp
  moreover have "(x + 1)\<^sup>2 = x * x + 2 * x + 1" by (simp add: power2_eq_square algebra_simps)
  ultimately have up: "x < (x + 1)\<^sup>2" using pos by linarith
  have "tdiv (x + 1) 2 = (x div x + x) div 2" using pos by (simp add: tdiv_div add.commute)
  then have "sqrt x = sqrt_loop x ((x div x + x) div 2) x" using False by (simp add: sqrt_def)
  with sqrt_loop_correct [OF pos pos up] show ?thesis by auto
qed

lemma sqrt_value_correct:
  assumes "0 \<le> x"
  shows "sqrt x = Some (Inr (sqrt_value x)) \<and> 0 \<le> sqrt_value x
         \<and> (sqrt_value x)\<^sup>2 \<le> x \<and> x < (sqrt_value x + 1)\<^sup>2"
proof -
  from sqrt_correct [OF assms] obtain s where
    s: "sqrt x = Some (Inr s)" "0 \<le> s" "s\<^sup>2 \<le> x" "x < (s + 1)\<^sup>2" by blast
  then have "sqrt_value x = s" by (simp add: sqrt_value_def)
  with s show ?thesis by simp
qed

lemma sqrt_value_mono:
  assumes "0 \<le> x" "x \<le> x'"
  shows "sqrt_value x \<le> sqrt_value x'"
proof (rule ccontr)
  assume "\<not> sqrt_value x \<le> sqrt_value x'"
  then have lt: "sqrt_value x' + 1 \<le> sqrt_value x" by simp
  have x': "0 \<le> x'" using assms by simp
  have "(sqrt_value x' + 1)\<^sup>2 \<le> (sqrt_value x)\<^sup>2"
    using lt sqrt_value_correct [OF x'] by (intro power_mono) simp_all
  also have "\<dots> \<le> x" using sqrt_value_correct [OF assms(1)] by simp
  also have "\<dots> \<le> x'" by (rule assms(2))
  finally show False using sqrt_value_correct [OF x'] by simp
qed

lemma sqrt_value_zero: "sqrt_value 0 = 0"
  by (simp add: sqrt_value_def sqrt_def)

lemma ln_value_SCALE: "ln_value SCALE = 0"
  by (simp add: ln_value_def log2_value_SCALE)

lemma calculateB_eq:
  assumes "0 \<le> b0 params" "0 \<le> alpha params" "0 \<le> beta params" "0 < V0 params"
    and "0 \<le> totalVolume" "0 \<le> txCount"
  shows "calculateB params totalVolume txCount
           = Some (Inr (liquidity_value params totalVolume txCount))"
proof -
  have sc: "0 < SCALE" by (simp add: SCALE_def)
  let ?r = "totalVolume * SCALE div V0 params"
  have tv: "0 \<le> totalVolume * SCALE" using assms(5) sc by simp
  have r0: "0 \<le> ?r" using tv assms(4) by (simp add: pos_imp_zdiv_nonneg_iff)
  have bd: "bigdiv (totalVolume * SCALE) (V0 params) = Inr ?r"
    using tv assms(4) by (rule bigdiv_eq)
  note sq = sqrt_value_correct [OF r0]
  have "0 \<le> txCount * SCALE" using assms(6) sc by simp
  then have "0 < SCALE + txCount * SCALE" using sc by linarith
  then have l: "ln (SCALE + txCount * SCALE) = Inr (ln_value (SCALE + txCount * SCALE))"
    by (rule ln_eq)
  have a0: "0 \<le> alpha params * sqrt_value ?r" using assms(2) sq by simp
  have b0': "0 \<le> beta params * ln_value (SCALE + txCount * SCALE)"
    using assms(3) ln_value_nonneg by simp
  have m0: "0 \<le> SCALE + alpha params * sqrt_value ?r div SCALE
                 + beta params * ln_value (SCALE + txCount * SCALE) div SCALE"
    using a0 b0' sc by (simp add: pos_imp_zdiv_nonneg_iff add_nonneg_nonneg)
  have p0: "0 \<le> b0 params * (SCALE + alpha params * sqrt_value ?r div SCALE
                 + beta params * ln_value (SCALE + txCount * SCALE) div SCALE)"
    using assms(1) m0 by simp
  show ?thesis
  proof (cases "totalVolume = 0 \<and> txCount = 0")
    case True
    then show ?thesis
      by (simp add: calculateB_def liquidity_value_def sqrt_value_zero ln_value_SCALE)
         (simp add: SCALE_def)
  next
    case False
    then have nz: "(totalVolume = 0 \<and> txCount = 0) = False" by simp
    show ?thesis unfolding calculateB_def nz
      by (simp add: bd sq l ebind_Inr Let_def liquidity_value_def
          tdiv_div [OF a0 sc] tdiv_div [OF b0' sc] tdiv_div [OF p0 sc])
  qed
qed

lemma liquidity_value_mono:
  assumes "0 \<le> b0 params" "0 \<le> alpha params" "0 \<le> beta params" "0 < V0 params"
    and "0 \<le> totalVolume" "totalVolume \<le> totalVolume'" "txCount \<le> txCount'"
  shows "liquidity_value params totalVolume txCount \<le> liquidity_value params totalVolume' txCount'"
proof -
  have sc: "0 < SCALE" by (simp add: SCALE_def)
  have "totalVolume * SCALE \<le> totalVolume' * SCALE" using assms(6) sc by simp
  then have r: "totalVolume * SCALE div V0 params \<le> totalVolume' * SCALE div V0 params"
    using assms(4) by (simp add: zdiv_mono1)
  have "0 \<le> totalVolume * SCALE" using assms(5) sc by simp
  then have r0: "0 \<le> totalVolume * SCALE div V0 params"
    using assms(4) by (simp add: pos_imp_zdiv_nonneg_iff)
  have a: "alpha params * sqrt_value (totalVolume * SCALE div V0 params) div SCALE
             \<le> alpha params * sqrt_value (totalVolume' * SCALE div V0 params) div SCALE"
    using sc assms(2) sqrt_value_mono [OF r0 r] by (intro zdiv_mono1 mult_left_mono) simp_all
  have "SCALE + txCount * SCALE \<le> SCALE + txCount' * SCALE" using assms(7) sc by simp
  then have b: "beta params * ln_value (SCALE + txCount * SCALE) div SCALE
             \<le> beta params * ln_value (SCALE + txCount' * SCALE) div SCALE"
    using sc assms(3) by (intro zdiv_mono1 mult_left_mono ln_value_mono) simp_all
  show ?thesis unfolding liquidity_value_def
    using sc assms(1) a b by (intro zdiv_mono1 mult_left_mono) simp_all
qed

section \<open>The logarithms\<close>

text \<open>
  C8. \<open>ln\<close> throws its domain error exactly on an argument \<open>x \<le> 0\<close> (and throws nothing
  else); on every \<open>x > 0\<close> it returns a value, and on \<open>x = 10^18\<close> that value is 0.
\<close>

theorem ln_domain:
  "(ln x = Inl DomainError \<longleftrightarrow> x \<le> 0) \<and> ((\<exists>e. ln x = Inl e) \<longleftrightarrow> x \<le> 0)
   \<and> (0 < x \<longrightarrow> (\<exists>v. ln x = Inr v)) \<and> ln (10 ^ 18) = Inr 0"
proof -
  have one: "ln (10 ^ 18) = Inr 0" by (simp add: ln_def SCALE_def)
  show ?thesis
  proof (cases "0 < x")
    case True
    then have "ln x = Inr (ln_value x)" by (rule ln_eq)
    with True one show ?thesis by simp
  next
    case False
    with one show ?thesis by (simp add: ln_def)
  qed
qed

theorem ln_domain_witness:
  "(0::int) < 3 * 10 ^ 18 \<and> (\<exists>v. ln (3 * 10 ^ 18) = Inr v) \<and> ln (3 * 10 ^ 18) \<noteq> Inl DomainError"
  using ln_domain [of "3 * 10 ^ 18"] by simp

section \<open>Prices\<close>

text \<open>
  C1. For every \<open>qYes \<ge> 0\<close>, \<open>qNo \<ge> 0\<close> and \<open>b > 0\<close>, \<open>getPrice\<close> returns a pair
  \<open>(priceYes, priceNo)\<close> with \<open>|priceYes + priceNo - 10^18| < 10^15\<close>.
\<close>

theorem getPrice_sum_tolerance:
  assumes "0 \<le> qYes" "0 \<le> qNo" "0 < b"
  shows "\<exists>priceYes priceNo. getPrice qYes qNo b = Inr (priceYes, priceNo)
           \<and> \<bar>priceYes + priceNo - 10 ^ 18\<bar> < 10 ^ 15"
proof -
  from price_sum_close [OF assms] obtain pYes pNo where
    p: "getPrice qYes qNo b = Inr (pYes, pNo)"
    and s: "pYes + pNo = SCALE \<or> pYes + pNo = SCALE - 1" by blast
  from s have "\<bar>pYes + pNo - 10 ^ 18\<bar> < 10 ^ 15" by (auto simp add: SCALE_def)
  with p show ?thesis by blast
qed

theorem getPrice_sum_tolerance_witness:
  "\<exists>priceYes priceNo. getPrice 7 3 2 = Inr (priceYes, priceNo)
           \<and> \<bar>priceYes + priceNo - 10 ^ 18\<bar> < 10 ^ 15"
  using getPrice_sum_tolerance [of 7 3 2] by simp

text \<open>
  C9. On every \<open>qYes \<ge> 0\<close>, \<open>qNo \<ge> 0\<close> and \<open>b > 0\<close> the two divisions by \<open>b\<close> succeed
  with non-negative quotients, \<open>expApprox\<close> of each quotient is at least \<open>10^18\<close>, the sum
  of the two exponentials is at least \<open>2 * 10^18\<close> (so the zero-sum fallback of
  \<open>getPrice\<close> is not taken and \<open>ln\<close> gets a positive argument), and both \<open>getPrice\<close> and
  \<open>getCost\<close> return a value instead of throwing.
\<close>

theorem valid_inputs_never_raise:
  assumes "0 \<le> qYes" "0 \<le> qNo" "0 < b"
  shows "bigdiv (qYes * SCALE) b = Inr (qYes * SCALE div b) \<and> 0 \<le> qYes * SCALE div b
       \<and> bigdiv (qNo * SCALE) b = Inr (qNo * SCALE div b) \<and> 0 \<le> qNo * SCALE div b
       \<and> 10 ^ 18 \<le> expApprox (qYes * SCALE div b) \<and> 10 ^ 18 \<le> expApprox (qNo * SCALE div b)
       \<and> 2 * 10 ^ 18 \<le> expApprox (qYes * SCALE div b) + expApprox (qNo * SCALE div b)
       \<and> expApprox (qYes * SCALE div b) + expApprox (qNo * SCALE div b) \<noteq> 0
       \<and> (\<exists>p. getPrice qYes qNo b = Inr p) \<and> (\<exists>c. getCost qYes qNo b = Inr c)"
proof -
  have qy: "0 \<le> qYes * SCALE" using assms by (simp add: SCALE_def)
  have qn: "0 \<le> qNo * SCALE" using assms by (simp add: SCALE_def)
  have xy: "0 \<le> qYes * SCALE div b" using assms by (simp add: scaled_quot_nonneg)
  have xn: "0 \<le> qNo * SCALE div b" using assms by (simp add: scaled_quot_nonneg)
  have ey: "10 ^ 18 \<le> expApprox (qYes * SCALE div b)"
    using expApprox_ge [OF xy] by (simp add: SCALE_def)
  have en: "10 ^ 18 \<le> expApprox (qNo * SCALE div b)"
    using expApprox_ge [OF xn] by (simp add: SCALE_def)
  have s: "2 * 10 ^ 18 \<le> expApprox (qYes * SCALE div b) + expApprox (qNo * SCALE div b)"
    using ey en by linarith
  then have ne: "expApprox (qYes * SCALE div b) + expApprox (qNo * SCALE div b) \<noteq> 0" by simp
  have p: "\<exists>p. getPrice qYes qNo b = Inr p" by (simp add: getPrice_eq [OF assms])
  have c: "\<exists>c. getCost qYes qNo b = Inr c" by (simp add: getCost_eq [OF assms])
  show ?thesis
    using bigdiv_eq [OF qy assms(3)] bigdiv_eq [OF qn assms(3)] xy xn ey en s ne p c by blast
qed

theorem valid_inputs_never_raise_witness:
  "(\<exists>p. getPrice 7 3 2 = Inr p) \<and> (\<exists>c. getCost 7 3 2 = Inr c)
   \<and> 2 * 10 ^ 18 \<le> expApprox (7 * SCALE div 2) + expApprox (3 * SCALE div 2)"
  using valid_inputs_never_raise [of 7 3 2] by simp

text \<open>
  C10. \<open>validateState\<close> never throws and returns exactly the truth value of
  \<open>qYes \<ge> 0 \<and> qNo \<ge> 0 \<and> b > 0\<close>: on sign-valid inputs the tolerance check always passes.
\<close>

theorem validateState_iff_signs:
  "validateState qYes qNo b = Inr (0 \<le> qYes \<and> 0 \<le> qNo \<and> 0 < b)"
proof (cases "0 \<le> qYes \<and> 0 \<le> qNo \<and> 0 < b")
  case True
  then have v: "0 \<le> qYes" "0 \<le> qNo" "0 < b" by simp_all
  from price_sum_close [OF v] obtain pYes pNo where
    "getPrice qYes qNo b = Inr (pYes, pNo)" "pYes + pNo = SCALE \<or> pYes + pNo = SCALE - 1" by blast
  then have "getPrice qYes qNo b = Inr (pYes, pNo)" "\<bar>pYes + pNo - 10 ^ 18\<bar> < 10 ^ 15"
    by (auto simp add: SCALE_def)
  with v show ?thesis by (simp add: validateState_def ebind_def)
next
  case False
  then show ?thesis by (auto simp add: validateState_def)
qed

section \<open>Cost\<close>

text \<open>
  C5. With \<open>b > 0\<close> fixed, \<open>getCost\<close> is non-decreasing in \<open>qYes\<close> and in \<open>qNo\<close>
  separately: for \<open>0 \<le> qYes \<le> qYes'\<close> and \<open>0 \<le> qNo \<le> qNo'\<close> the three calls return
  values, and the cost at \<open>(qYes, qNo)\<close> is at most the cost at \<open>(qYes', qNo)\<close> and at most
  the cost at \<open>(qYes, qNo')\<close>; \<open>qYes = qNo = 0\<close> is included.
\<close>

theorem getCost_monotone:
  assumes "0 < b" "0 \<le> qYes" "qYes \<le> qYes'" "0 \<le> qNo" "qNo \<le> qNo'"
  shows "\<exists>c cYes cNo. getCost qYes qNo b = Inr c
           \<and> getCost qYes' qNo b = Inr cYes \<and> getCost qYes qNo' b = Inr cNo
           \<and> c \<le> cYes \<and> c \<le> cNo"
proof -
  from getCost_mono_both [OF assms(1) assms(2) assms(3) assms(4) order_refl]
  obtain c cYes where 1: "getCost qYes qNo b = Inr c" "getCost qYes' qNo b = Inr cYes" "c \<le> cYes"
    by blast
  from getCost_mono_both [OF assms(1) assms(2) order_refl assms(4) assms(5)]
  obtain d cNo where 2: "getCost qYes qNo b = Inr d" "getCost qYes qNo' b = Inr cNo" "d \<le> cNo"
    by blast
  from 1 2 have "d = c" by simp
  with 1 2 show ?thesis by blast
qed

theorem getCost_monotone_witness:
  "\<exists>c cYes cNo. getCost 0 0 10 = Inr c
           \<and> getCost 5 0 10 = Inr cYes \<and> getCost 0 4 10 = Inr cNo
           \<and> c \<le> cYes \<and> c \<le> cNo"
  using getCost_monotone [of 10 0 5 0 4] by simp

section \<open>Share solver\<close>

text \<open>
  C7. For every \<open>payAmount > 0\<close>, \<open>q \<ge> 0\<close> and \<open>b > 0\<close>, \<open>calculateShares\<close> returns a
  value for the YES purchase and for the NO purchase at \<open>qYes = qNo = q\<close>, and the two
  values are the same.
\<close>

theorem calculateShares_symmetric:
  assumes "0 < payAmount" "0 \<le> q" "0 < b"
  shows "\<exists>shares. calculateShares payAmount True q q b = Inr shares
           \<and> calculateShares payAmount False q q b = Inr shares"
proof -
  have "0 \<le> payAmount" using assms(1) by simp
  from calculateShares_result [OF this assms(2) assms(2) assms(3), of True]
  obtain r where "calculateShares payAmount True q q b = Inr r" by blast
  then show ?thesis by (simp add: calculateShares_swap [symmetric])
qed

theorem calculateShares_symmetric_witness:
  "\<exists>shares. calculateShares 1 True 0 0 10 = Inr shares \<and> calculateShares 1 False 0 0 10 = Inr shares"
  using calculateShares_symmetric [of 1 0 10] by simp

text \<open>
  C2, as stated, fails: the search returns the first quantity whose cost reaches the target,
  and the cost function moves in steps, so the returned quantity can cost more than
  \<open>payAmount\<close>. With \<open>payAmount = 1\<close>, \<open>qYes = qNo = 0\<close>, \<open>b = 10\<close> the solver returns 5
  shares, whose cost difference is \<open>9 - 6 = 3 > 1\<close>.
\<close>

theorem calculateShares_overshoot:
  "calculateShares 1 True 0 0 10 = Inr 5 \<and> getCost 0 0 10 = Inr 6
   \<and> getCost (0 + 5) 0 10 = Inr 9 \<and> \<not> ((9::int) - 6 \<le> 1)"
proof -
  have "getCost 0 0 10 = Inr 6"
    using shares_cost_zero [of 10 0 0 True] by (simp add: small_cost_0)
  moreover have "getCost (0 + 5) 0 10 = Inr 9"
    using shares_cost_eq [of 10 0 0 5 True] by (simp add: small_cost_5)
  ultimately show ?thesis by (simp add: small_shares)
qed

text \<open>
  C2, amended. For every \<open>payAmount > 0\<close>, \<open>qYes, qNo \<ge> 0\<close> and \<open>b > 0\<close>,
  \<open>calculateShares\<close> returns a quantity \<open>shares\<close> with \<open>0 \<le> shares \<le> 10 * payAmount\<close> that
  brackets the first quantity whose cost difference reaches \<open>payAmount\<close>. From below: every
  smaller non-negative quantity \<open>s\<close> has \<open>getCost(q + s * e) - getCost(q) < payAmount\<close>.
  From above: some \<open>h\<close> with \<open>shares \<le> h \<le> 10 * payAmount\<close> and
  \<open>h - shares \<le> 10 * payAmount div 2^50\<close> either is the search bound \<open>10 * payAmount\<close> or
  has \<open>getCost(q + h * e) - getCost(q) \<ge> payAmount\<close>. So when \<open>10 * payAmount < 2^50\<close> the
  result is exactly the first quantity whose cost difference reaches \<open>payAmount\<close> (or the
  bound, when none below it does), and otherwise it falls short of it by at most
  \<open>10 * payAmount div 2^50\<close>.
\<close>

theorem calculateShares_below_target:
  assumes "0 < payAmount" "0 \<le> qYes" "0 \<le> qNo" "0 < b"
  shows "\<exists>shares c0. calculateShares payAmount isYes qYes qNo b = Inr shares
           \<and> getCost qYes qNo b = Inr c0
           \<and> 0 \<le> shares \<and> shares \<le> payAmount * 10
           \<and> (\<forall>s. 0 \<le> s \<and> s < shares \<longrightarrow>
                 (\<exists>c. getCost (if isYes then qYes + s else qYes)
                               (if isYes then qNo else qNo + s) b = Inr c
                      \<and> c - c0 < payAmount))
           \<and> (\<exists>h. shares \<le> h \<and> h \<le> payAmount * 10
                 \<and> h - shares \<le> payAmount * 10 div 2 ^ 50
                 \<and> (h = payAmount * 10
                      \<or> (\<exists>c. getCost (if isYes then qYes + h else qYes)
                                    (if isYes then qNo else qNo + h) b = Inr c
                           \<and> payAmount \<le> c - c0)))"
proof -
  have p: "0 \<le> payAmount" using assms(1) by simp
  let ?cost = "shares_cost isYes qYes qNo b"
  from calculateShares_result [OF p assms(2,3,4), of isYes] obtain r where
    r: "calculateShares payAmount isYes qYes qNo b = Inr r" "0 \<le> r" "r \<le> payAmount * 10"
    "\<forall>s. 0 \<le> s \<and> s < r \<longrightarrow> ?cost s < ?cost 0 + payAmount" by blast
  from calculateShares_crossing [OF p assms(2,3,4), of isYes] r(1) obtain h where
    h: "r \<le> h" "h \<le> payAmount * 10" "h - r \<le> payAmount * 10 div 2 ^ 50"
    "h = payAmount * 10 \<or> ?cost 0 + payAmount \<le> ?cost h" by auto
  have z: "getCost qYes qNo b = Inr (?cost 0)"
    using assms by (simp add: shares_cost_zero)
  have below: "\<forall>s. 0 \<le> s \<and> s < r \<longrightarrow>
          (\<exists>c. getCost (if isYes then qYes + s else qYes) (if isYes then qNo else qNo + s) b = Inr c
               \<and> c - ?cost 0 < payAmount)"
  proof (intro allI impI)
    fix s assume s: "0 \<le> s \<and> s < r"
    then have "getCost (if isYes then qYes + s else qYes) (if isYes then qNo else qNo + s) b
                 = Inr (?cost s)"
      using assms by (intro shares_cost_eq) simp_all
    moreover have "?cost s - ?cost 0 < payAmount"
      using r(4) s by (simp add: algebra_simps)
    ultimately show "\<exists>c. getCost (if isYes then qYes + s else qYes)
        (if isYes then qNo else qNo + s) b = Inr c \<and> c - ?cost 0 < payAmount"
      by blast
  qed
  have h0: "0 \<le> h" using r(2) h(1) by simp
  have gh: "getCost (if isYes then qYes + h else qYes) (if isYes then qNo else qNo + h) b
              = Inr (?cost h)"
    using assms(4,2,3) h0 by (rule shares_cost_eq)
  have reach: "h = payAmount * 10
      \<or> (\<exists>c. getCost (if isYes then qYes + h else qYes) (if isYes then qNo else qNo + h) b = Inr c
             \<and> payAmount \<le> c - ?cost 0)"
    using h(4) gh by auto
  have above: "\<exists>h. r \<le> h \<and> h \<le> payAmount * 10 \<and> h - r \<le> payAmount * 10 div 2 ^ 50
      \<and> (h = payAmount * 10
          \<or> (\<exists>c. getCost (if isYes then qYes + h else qYes) (if isYes then qNo else qNo + h) b = Inr c
                 \<and> payAmount \<le> c - ?cost 0))"
    using h(1,2,3) reach by blast
  from r(1,2,3) z below above show ?thesis by blast
qed

theorem calculateShares_below_target_witness:
  "\<exists>shares c0. calculateShares 1 True 0 0 10 = Inr shares
           \<and> getCost 0 0 10 = Inr c0
           \<and> 0 \<le> shares \<and> shares \<le> 1 * 10
           \<and> (\<forall>s. 0 \<le> s \<and> s < shares \<longrightarrow>
                 (\<exists>c. getCost (if True then 0 + s else 0) (if True then 0 else 0 + s) 10 = Inr c
                      \<and> c - c0 < 1))
           \<and> (\<exists>h. shares \<le> h \<and> h \<le> 1 * 10
                 \<and> h - shares \<le> 1 * 10 div 2 ^ 50
                 \<and> (h = 1 * 10
                      \<or> (\<exists>c. getCost (if True then 0 + h else 0)
                                    (if True then 0 else 0 + h) 10 = Inr c
                           \<and> 1 \<le> c - c0)))"
  using calculateShares_below_target [of 1 0 0 10 True] by simp

section \<open>Trade preview\<close>

text \<open>
  C3, as stated, fails: in the scenario \<open>payAmount = 100 * 10^18\<close>,
  \<open>qYes = qNo = b = 100 * 10^18\<close>, \<open>feeRate = 50\<close> the preview succeeds and its
  \<open>expectedShares\<close> is not below \<open>netAmount\<close>.
\<close>

theorem previewTrade_scenario_shares_exceed:
  "\<not> isl (previewTrade (100 * 10 ^ 18) True (100 * 10 ^ 18) (100 * 10 ^ 18) (100 * 10 ^ 18) 50)
   \<and> \<not> expectedShares (projr (previewTrade (100 * 10 ^ 18) True (100 * 10 ^ 18) (100 * 10 ^ 18) (100 * 10 ^ 18) 50))
        < netAmount (projr (previewTrade (100 * 10 ^ 18) True (100 * 10 ^ 18) (100 * 10 ^ 18) (100 * 10 ^ 18) 50))"
proof -
  from scenario_preview [of True] obtain p where
    "previewTrade (100 * 10 ^ 18) True (100 * 10 ^ 18) (100 * 10 ^ 18) (100 * 10 ^ 18) 50 = Inr p"
    "netAmount p = 995 * 10 ^ 17" "124375 * 10 ^ 15 < expectedShares p" by blast
  then show ?thesis by simp
qed

text \<open>
  C3, amended. In that scenario, for either outcome, \<open>previewTrade\<close> returns
  \<open>fee = 0.5 * 10^18\<close>, \<open>netAmount = 99.5 * 10^18\<close> and an \<open>expectedShares\<close> strictly
  greater than \<open>netAmount\<close>.
\<close>

theorem previewTrade_scenario:
  "\<exists>p. previewTrade (100 * 10 ^ 18) isYes (100 * 10 ^ 18) (100 * 10 ^ 18) (100 * 10 ^ 18) 50 = Inr p
       \<and> fee p = 5 * 10 ^ 17 \<and> netAmount p = 995 * 10 ^ 17 \<and> netAmount p < expectedShares p"
proof -
  from scenario_preview [of isYes] obtain p where
    p: "previewTrade (100 * 10 ^ 18) isYes (100 * 10 ^ 18) (100 * 10 ^ 18) (100 * 10 ^ 18) 50 = Inr p"
    "fee p = 5 * 10 ^ 17" "netAmount p = 995 * 10 ^ 17" "124375 * 10 ^ 15 < expectedShares p"
    by blast
  from p(3,4) have "netAmount p < expectedShares p" by simp
  with p(1,2,3) show ?thesis by blast
qed

section \<open>Dynamic liquidity\<close>

text \<open>
  C6. For a configuration with \<open>b0 > 0\<close>, \<open>alpha \<ge> 0\<close>, \<open>beta \<ge> 0\<close>, \<open>V0 > 0\<close>,
  \<open>calculateB\<close> returns a value on all non-negative arguments and is non-decreasing in
  \<open>totalVolume\<close> and in \<open>txCount\<close> separately, the case \<open>totalVolume = txCount = 0\<close>, where
  it returns \<open>b0\<close>, included.
\<close>

theorem calculateB_monotone:
  assumes "0 < b0 params" "0 \<le> alpha params" "0 \<le> beta params" "0 < V0 params"
    and "0 \<le> totalVolume" "totalVolume \<le> totalVolume'" "0 \<le> txCount" "txCount \<le> txCount'"
  shows "\<exists>b bVolume bCount. calculateB params totalVolume txCount = Some (Inr b)
           \<and> calculateB params totalVolume' txCount = Some (Inr bVolume)
           \<and> calculateB params totalVolume txCount' = Some (Inr bCount)
           \<and> b \<le> bVolume \<and> b \<le> bCount
           \<and> calculateB params 0 0 = Some (Inr (b0 params))"
proof -
  have b: "0 \<le> b0 params" using assms(1) by simp
  have v: "0 \<le> totalVolume'" "0 \<le> txCount'" using assms by simp_all
  note e = calculateB_eq [OF b assms(2,3,4)]
  have "liquidity_value params totalVolume txCount \<le> liquidity_value params totalVolume' txCount"
    using b assms(2,3,4,5,6) by (intro liquidity_value_mono) simp_all
  moreover have "liquidity_value params totalVolume txCount \<le> liquidity_value params totalVolume txCount'"
    using b assms(2,3,4,5,8) by (intro liquidity_value_mono) simp_all
  moreover have "calculateB params 0 0 = Some (Inr (b0 params))" by (simp add: calculateB_def)
  ultimately show ?thesis
    by (simp add: e [OF assms(5) assms(7)] e [OF v(1) assms(7)] e [OF assms(5) v(2)])
qed

theorem calculateB_monotone_witness:
  "\<exists>b bVolume bCount. calculateB DEFAULT_LMSR_PARAMS 0 0 = Some (Inr b)
           \<and> calculateB DEFAULT_LMSR_PARAMS (10 ^ 24) 0 = Some (Inr bVolume)
           \<and> calculateB DEFAULT_LMSR_PARAMS 0 10 = Some (Inr bCount)
           \<and> b \<le> bVolume \<and> b \<le> bCount
           \<and> calculateB DEFAULT_LMSR_PARAMS 0 0 = Some (Inr (b0 DEFAULT_LMSR_PARAMS))"
  using calculateB_monotone [of DEFAULT_LMSR_PARAMS 0 "10 ^ 24" 0 10]
  by (simp add: DEFAULT_LMSR_PARAMS_def)

section \<open>The fractional correction of the binary logarithm\<close>

text \<open>
  C4. The source comments give the corrections as \<open>log2(1.5) \<approx> 0.585\<close> and
  \<open>log2(1.25) \<approx> 0.322\<close>; the constants the code adds are \<open>5 * 10^17\<close> and
  \<open>32 * 10^16\<close>. At \<open>x = 1.5 * 10^18\<close> the function returns \<open>0.5 * 10^18\<close>, not
  \<open>0.585 * 10^18\<close>, and at \<open>x = 1.25 * 10^18\<close> it returns \<open>0.32 * 10^18\<close>, not
  \<open>0.322 * 10^18\<close>.
\<close>

theorem log2_bucket_values:
  "log2 (15 * 10 ^ 17) = Inr (5 * 10 ^ 17) \<and> log2 (15 * 10 ^ 17) \<noteq> Inr (585 * 10 ^ 15)
   \<and> log2 (125 * 10 ^ 16) = Inr (32 * 10 ^ 16) \<and> log2 (125 * 10 ^ 16) \<noteq> Inr (322 * 10 ^ 15)"
  by (simp add: log2_eq log2_value_stop log2_frac_def SCALE_def)

end
